theory Spec2Isabelle
  imports Complex_Main "HOL-Library.Multiset" "HOL-Library.Product_Lexorder"
begin

section \<open>Numbers\<close>

text \<open>
  A JavaScript number is an IEEE 754 binary64 value: a finite value (kept as the real
  number it stands for), an infinity, or NaN. The sign of zero is not kept: the code
  below tests a zero only with \<open>=== 0\<close> and never divides by one, so \<open>-0\<close> and \<open>+0\<close>
  behave alike in it.
\<close>

datatype float64 = Finite real | PInf | NInf | NaN

text \<open>
  Rounding to nearest, ties to even. \<open>binade x\<close> is the exponent of the binade of \<open>x\<close>
  (at least \<open>-1022\<close>, where the subnormal numbers begin); one unit in the last place is
  \<open>2\<close> to the power \<open>binade x - 52\<close>, and \<open>x\<close> is rounded to a whole number of units. A
  rounded magnitude of \<open>2\<^sup>1\<^sup>0\<^sup>2\<^sup>4\<close> or more overflows to an infinity.
\<close>

definition round_even :: "real \<Rightarrow> int" where
  "round_even t =
     (let f = \<lfloor>t\<rfloor>
      in if t - of_int f < 1 / 2 then f
         else if t - of_int f > 1 / 2 then f + 1
         else if even f then f else f + 1)"

definition binade :: "real \<Rightarrow> int" where
  "binade x = max \<lfloor>log 2 \<bar>x\<bar>\<rfloor> (- 1022)"

definition overflow_threshold :: real where
  "overflow_threshold = 2 ^ 1024"

definition to_float64 :: "real \<Rightarrow> float64" where
  "to_float64 x =
     (if x = 0 then Finite 0
      else
        (let u = 2 powi (binade x - 52);
             y = of_int (round_even (x / u)) * u
         in if overflow_threshold \<le> \<bar>y\<bar> then (if 0 < x then PInf else NInf) else Finite y))"

text \<open>
  The operations the code uses: \<open>+\<close>, \<open>-\<close>, \<open>*\<close>, \<open>/\<close> and \<open>Math.sqrt\<close>. On finite
  operands the exact result is rounded; the other cases are those of IEEE 754.
\<close>

definition signed_infinity :: "bool \<Rightarrow> float64" where
  "signed_infinity positive = (if positive then PInf else NInf)"

fun fneg :: "float64 \<Rightarrow> float64" where
  "fneg (Finite a) = Finite (- a)"
| "fneg PInf = NInf"
| "fneg NInf = PInf"
| "fneg NaN = NaN"

fun fadd :: "float64 \<Rightarrow> float64 \<Rightarrow> float64" where
  "fadd NaN y = NaN"
| "fadd x NaN = NaN"
| "fadd PInf NInf = NaN"
| "fadd NInf PInf = NaN"
| "fadd PInf y = PInf"
| "fadd x PInf = PInf"
| "fadd NInf y = NInf"
| "fadd x NInf = NInf"
| "fadd (Finite a) (Finite b) = to_float64 (a + b)"

definition fsub :: "float64 \<Rightarrow> float64 \<Rightarrow> float64" where
  "fsub x y = fadd x (fneg y)"

fun fmul :: "float64 \<Rightarrow> float64 \<Rightarrow> float64" where
  "fmul NaN y = NaN"
| "fmul x NaN = NaN"
| "fmul (Finite a) (Finite b) = to_float64 (a * b)"
| "fmul (Finite a) PInf = (if a = 0 then NaN else signed_infinity (0 < a))"
| "fmul (Finite a) NInf = (if a = 0 then NaN else signed_infinity (a < 0))"
| "fmul PInf (Finite b) = (if b = 0 then NaN else signed_infinity (0 < b))"
| "fmul NInf (Finite b) = (if b = 0 then NaN else signed_infinity (b < 0))"
| "fmul PInf PInf = PInf"
| "fmul NInf NInf = PInf"
| "fmul PInf NInf = NInf"
| "fmul NInf PInf = NInf"

text \<open>A zero divisor is read as \<open>+0\<close>; \<open>cosineSimilarity\<close> returns before dividing by one.\<close>

fun fdiv :: "float64 \<Rightarrow> float64 \<Rightarrow> float64" where
  "fdiv NaN y = NaN"
| "fdiv x NaN = NaN"
| "fdiv (Finite a) (Finite b) =
     (if b = 0 then (if a = 0 then NaN else signed_infinity (0 < a)) else to_float64 (a / b))"
| "fdiv (Finite a) PInf = Finite 0"
| "fdiv (Finite a) NInf = Finite 0"
| "fdiv PInf (Finite b) = signed_infinity (0 \<le> b)"
| "fdiv NInf (Finite b) = signed_infinity (b < 0)"
| "fdiv PInf PInf = NaN"
| "fdiv PInf NInf = NaN"
| "fdiv NInf PInf = NaN"
| "fdiv NInf NInf = NaN"

fun fsqrt :: "float64 \<Rightarrow> float64" where
  "fsqrt (Finite a) = (if a < 0 then NaN else to_float64 (sqrt a))"
| "fsqrt PInf = PInf"
| "fsqrt NInf = NaN"
| "fsqrt NaN = NaN"

text \<open>The comparison \<open>x <= y\<close> of two numbers; it is false when either is NaN.\<close>

fun fle :: "float64 \<Rightarrow> float64 \<Rightarrow> bool" where
  "fle NaN y = False"
| "fle x NaN = False"
| "fle NInf y = True"
| "fle x PInf = True"
| "fle x NInf = False"
| "fle PInf y = False"
| "fle (Finite a) (Finite b) = (a \<le> b)"

section \<open>Data model\<close>

text \<open>
  The chatbot Lambda (lambda-function.js), the document processor (process-faqs.js) and the
  content manager exchange one JSON array of embedded records. Strings are lists of code
  units (\<open>string\<close>), so \<open>length\<close> is the JavaScript \<open>.length\<close>.
\<close>

record metadata =
  source :: string
  category :: string
  chunkIndex :: nat
  totalChunks :: nat
  lastUpdated :: "string option"

record embedded_record =
  id' :: string
  text' :: string
  embedding :: "float64 list"
  metadata :: metadata

text \<open>\<open>{...item, similarity: s}\<close>: a fresh object with the fields of the item and the score.\<close>

record scored_record = embedded_record +
  similarity :: float64

text \<open>A thrown error object, with its \<open>name\<close> and its \<open>message\<close>.\<close>

datatype error = Thrown (error_name: string) (error_message: string)

section \<open>Strings and arrays of the JavaScript library\<close>

text \<open>
  White space as \<open>String.prototype.trim\<close> and the regular expression class \<open>\s\<close> see it
  (the code units below 256: tab, line feed, vertical tab, form feed, carriage return,
  space, no-break space).
\<close>

definition is_whitespace :: "char \<Rightarrow> bool" where
  "is_whitespace c \<longleftrightarrow>
     c \<in> {CHR 0x09, CHR 0x0A, CHR 0x0B, CHR 0x0C, CHR 0x0D, CHR 0x20, CHR 0xA0}"

definition trim :: "string \<Rightarrow> string" where
  "trim s = rev (dropWhile is_whitespace (rev (dropWhile is_whitespace s)))"

text \<open>
  \<open>slice(start, end)\<close> of arrays and strings: a negative index counts from the end, and
  both indices are clamped to \<open>[0, length]\<close>. \<open>slice_from\<close> is \<open>slice(start)\<close>.
\<close>

definition relative_index :: "nat \<Rightarrow> int \<Rightarrow> nat" where
  "relative_index len i = (if i < 0 then nat (max (int len + i) 0) else min (nat i) len)"

definition slice :: "'a list \<Rightarrow> int \<Rightarrow> int \<Rightarrow> 'a list" where
  "slice xs start end =
     (let k = relative_index (length xs) start;
          final = relative_index (length xs) end
      in take (final - k) (drop k xs))"

definition slice_from :: "'a list \<Rightarrow> int \<Rightarrow> 'a list" where
  "slice_from xs start = drop (relative_index (length xs) start) xs"

text \<open>
  \<open>Array.prototype.sort(compareFn)\<close>. ECMAScript reads the value of the comparator through
  \<open>SortCompare\<close>, which takes NaN as \<open>+0\<close>; \<open>sort_le_zero\<close> is "that value is at most
  zero". The sort is required to be stable and, for a consistent comparator, to place
  \<open>a\<close> before \<open>b\<close> only if the value for \<open>(a, b)\<close> is at most zero; the result is then
  unique, and a stable insertion sort computes it. (For an inconsistent comparator the
  order is left to the implementation.)
\<close>

fun sort_le_zero :: "float64 \<Rightarrow> bool" where
  "sort_le_zero (Finite v) = (v \<le> 0)"
| "sort_le_zero NInf = True"
| "sort_le_zero PInf = False"
| "sort_le_zero NaN = True"

fun insert_by :: "('a \<Rightarrow> 'a \<Rightarrow> float64) \<Rightarrow> 'a \<Rightarrow> 'a list \<Rightarrow> 'a list" where
  "insert_by compareFn x [] = [x]"
| "insert_by compareFn x (y # ys) =
     (if sort_le_zero (compareFn x y) then x # y # ys else y # insert_by compareFn x ys)"

definition array_sort :: "('a \<Rightarrow> 'a \<Rightarrow> float64) \<Rightarrow> 'a list \<Rightarrow> 'a list" where
  "array_sort compareFn xs = foldr (insert_by compareFn) xs []"

text \<open>\<open>Array.prototype.join(sep)\<close>.\<close>

fun join :: "string \<Rightarrow> string list \<Rightarrow> string" where
  "join sep [] = []"
| "join sep [x] = x"
| "join sep (x # y # ys) = x @ sep @ join sep (y # ys)"

text \<open>A non-negative integer in a template literal: its decimal digits.\<close>

definition digit_char :: "nat \<Rightarrow> char" where
  "digit_char d = ''0123456789'' ! d"

fun show_nat :: "nat \<Rightarrow> string" where
  "show_nat n = (if n < 10 then [digit_char n] else show_nat (n div 10) @ [digit_char (n mod 10)])"

declare show_nat.simps [simp del]

text \<open>Reading decimal digits back, the inverse of \<open>show_nat\<close>.\<close>

definition digit_val :: "char \<Rightarrow> nat" where
  "digit_val c = of_char c - 48"

definition read_nat :: "string \<Rightarrow> nat" where
  "read_nat s = foldl (\<lambda>acc c. 10 * acc + digit_val c) 0 s"

text \<open>\<open>s.split(sep)\<close> for a one-character separator, \<open>s.endsWith(t)\<close>, and
  \<open>s.replace(pattern, replacement)\<close> with a string pattern (the first occurrence only).\<close>

fun split_on :: "char \<Rightarrow> string \<Rightarrow> string list" where
  "split_on sep [] = [] # []"
| "split_on sep (c # cs) =
     (if c = sep then [] # split_on sep cs
      else (case split_on sep cs of
              [] \<Rightarrow> [c] # []
            | piece # pieces \<Rightarrow> (c # piece) # pieces))"

definition endsWith :: "string \<Rightarrow> string \<Rightarrow> bool" where
  "endsWith s t \<longleftrightarrow> length t \<le> length s \<and> drop (length s - length t) s = t"

fun replace_first :: "string \<Rightarrow> string \<Rightarrow> string \<Rightarrow> string" where
  "replace_first pattern replacement [] = (if pattern = [] then replacement else [])"
| "replace_first pattern replacement (c # cs) =
     (if take (length pattern) (c # cs) = pattern
      then replacement @ drop (length pattern) (c # cs)
      else c # replace_first pattern replacement cs)"

section \<open>Cosine similarity\<close>

text \<open>
  The loop of \<open>cosineSimilarity\<close>: one step adds the contribution of index \<open>i\<close> to
  \<open>dotProduct\<close>, \<open>normA\<close> and \<open>normB\<close>.
\<close>

definition cosine_step ::
  "float64 list \<Rightarrow> float64 list \<Rightarrow> nat \<Rightarrow> float64 \<times> float64 \<times> float64 \<Rightarrow>
   float64 \<times> float64 \<times> float64" where
  "cosine_step vecA vecB i acc =
     (case acc of (dotProduct, normA, normB) \<Rightarrow>
        (fadd dotProduct (fmul (vecA ! i) (vecB ! i)),
         fadd normA (fmul (vecA ! i) (vecA ! i)),
         fadd normB (fmul (vecB ! i) (vecB ! i))))"

definition cosineSimilarity :: "float64 list \<Rightarrow> float64 list \<Rightarrow> error + float64" where
  "cosineSimilarity vecA vecB =
     (if length vecA \<noteq> length vecB
      then Inl (Thrown ''Error'' ''Vectors must have the same length'')
      else
        (case fold (cosine_step vecA vecB) [0..<length vecA] (Finite 0, Finite 0, Finite 0) of
           (dotProduct, normA, normB) \<Rightarrow>
             (let denominator = fmul (fsqrt normA) (fsqrt normB)
              in if denominator = Finite 0 then Inr (Finite 0)
                 else Inr (fdiv dotProduct denominator))))"

section \<open>Retrieval\<close>

text \<open>
  \<open>faqEmbeddings.map(item => ({...item, similarity: cosineSimilarity(q, item.embedding)}))\<close>:
  the callback runs on the items in order, and the first \<open>throw\<close> ends the whole call.
\<close>

definition score :: "float64 list \<Rightarrow> embedded_record \<Rightarrow> error + scored_record" where
  "score questionEmbedding item =
     (case cosineSimilarity questionEmbedding (embedding item) of
        Inl e \<Rightarrow> Inl e
      | Inr s \<Rightarrow>
          Inr \<lparr>id' = id' item, text' = text' item, embedding = embedding item,
               metadata = metadata item, similarity = s\<rparr>)"

fun map_scores :: "float64 list \<Rightarrow> embedded_record list \<Rightarrow> error + scored_record list" where
  "map_scores questionEmbedding [] = Inr []"
| "map_scores questionEmbedding (item # items) =
     (case score questionEmbedding item of
        Inl e \<Rightarrow> Inl e
      | Inr s \<Rightarrow>
          (case map_scores questionEmbedding items of
             Inl e \<Rightarrow> Inl e
           | Inr ss \<Rightarrow> Inr (s # ss)))"

definition findRelevantChunks ::
  "float64 list \<Rightarrow> embedded_record list \<Rightarrow> int \<Rightarrow> error + scored_record list" where
  "findRelevantChunks questionEmbedding faqEmbeddings topK =
     (case map_scores questionEmbedding faqEmbeddings of
        Inl e \<Rightarrow> Inl e
      | Inr similarities \<Rightarrow>
          Inr (slice (array_sort (\<lambda>a b. fsub (similarity b) (similarity a)) similarities)
                 0 topK))"

text \<open>
  \<open>buildContext\<close>: one block per chunk, \<open>[Source n: category]\<close>, the text, a line feed;
  the blocks joined by a line feed.
\<close>

definition buildContext :: "scored_record list \<Rightarrow> string" where
  "buildContext chunks =
     join [CHR 0x0A]
       (map (\<lambda>(index, chunk).
               ''[Source '' @ show_nat (index + 1) @ '': '' @ category (metadata chunk) @ '']''
               @ [CHR 0x0A] @ text' chunk @ [CHR 0x0A])
            (enumerate 0 chunks))"

section \<open>Retrieval on an explicit store\<close>

text \<open>
  The same \<open>findRelevantChunks\<close> with its objects in a store, to see what it writes: an
  address is an index into the store, \<open>alloc\<close> appends a fresh object. The cached array
  holds the addresses of its records; \<open>map\<close> allocates one scored object per record and
  a new array, \<open>sort\<close> rewrites that new array in place, \<open>slice\<close> allocates the result.
  The fields of a record are kept as values: the spread copies them and the call never
  writes through them.
\<close>

type_synonym addr = nat

datatype obj = Item embedded_record | Scored scored_record | Array "addr list"

type_synonym store = "obj list"

definition lookup :: "store \<Rightarrow> addr \<Rightarrow> obj option" where
  "lookup h a = (if a < length h then Some (h ! a) else None)"

definition alloc :: "store \<Rightarrow> obj \<Rightarrow> addr \<times> store" where
  "alloc h ob = (length h, h @ [ob])"

definition elements :: "store \<Rightarrow> addr \<Rightarrow> addr list" where
  "elements h a = (case lookup h a of Some (Array xs) \<Rightarrow> xs | _ \<Rightarrow> [])"

definition similarity_at :: "store \<Rightarrow> addr \<Rightarrow> float64" where
  "similarity_at h a = (case lookup h a of Some (Scored s) \<Rightarrow> similarity s | _ \<Rightarrow> NaN)"

fun map_scores_store :: "float64 list \<Rightarrow> addr list \<Rightarrow> store \<Rightarrow> (error + addr list) \<times> store" where
  "map_scores_store questionEmbedding [] h = (Inr [], h)"
| "map_scores_store questionEmbedding (a # as) h =
     (case lookup h a of
        Some (Item item) \<Rightarrow>
          (case score questionEmbedding item of
             Inl e \<Rightarrow> (Inl e, h)
           | Inr s \<Rightarrow>
               (case alloc h (Scored s) of
                  (r, h') \<Rightarrow>
                    (case map_scores_store questionEmbedding as h' of
                       (Inl e, h'') \<Rightarrow> (Inl e, h'')
                     | (Inr rs, h'') \<Rightarrow> (Inr (r # rs), h''))))
      | _ \<Rightarrow> (Inl (Thrown ''TypeError'' ''item is not an embedded record''), h))"

definition findRelevantChunks_store ::
  "float64 list \<Rightarrow> addr \<Rightarrow> int \<Rightarrow> store \<Rightarrow> (error + addr) \<times> store" where
  "findRelevantChunks_store questionEmbedding faqEmbeddings topK h =
     (case lookup h faqEmbeddings of
        Some (Array items) \<Rightarrow>
          (case map_scores_store questionEmbedding items h of
             (Inl e, h1) \<Rightarrow> (Inl e, h1)
           | (Inr rs, h1) \<Rightarrow>
               (case alloc h1 (Array rs) of
                  (similarities, h2) \<Rightarrow>
                    (let h3 = h2[similarities :=
                                   Array (array_sort
                                            (\<lambda>a b. fsub (similarity_at h2 b) (similarity_at h2 a))
                                            (elements h2 similarities))]
                     in (case alloc h3 (Array (slice (elements h3 similarities) 0 topK)) of
                           (topChunks, h4) \<Rightarrow> (Inr topChunks, h4)))))
      | _ \<Rightarrow> (Inl (Thrown ''TypeError'' ''faqEmbeddings.map is not a function''), h))"

text \<open>What an array of records, and an array of scored records, holds in a store.\<close>

definition item_at :: "store \<Rightarrow> addr \<Rightarrow> embedded_record option" where
  "item_at h p = (case lookup h p of Some (Item r) \<Rightarrow> Some r | _ \<Rightarrow> None)"

definition scored_at :: "store \<Rightarrow> addr \<Rightarrow> scored_record option" where
  "scored_at h p = (case lookup h p of Some (Scored r) \<Rightarrow> Some r | _ \<Rightarrow> None)"

definition read_snapshot :: "store \<Rightarrow> addr \<Rightarrow> embedded_record list option" where
  "read_snapshot h a =
     (case lookup h a of
        Some (Array items) \<Rightarrow> those (map (item_at h) items)
      | _ \<Rightarrow> None)"

definition read_scored :: "store \<Rightarrow> addr \<Rightarrow> scored_record list option" where
  "read_scored h a =
     (case lookup h a of
        Some (Array items) \<Rightarrow> those (map (scored_at h) items)
      | _ \<Rightarrow> None)"

section \<open>The embeddings cache and the request handler\<close>

text \<open>
  The module state of the Lambda: \<open>embeddingsCache\<close> (\<open>null\<close> is \<open>None\<close>) and
  \<open>cacheTimestamp\<close>, in milliseconds.
\<close>

record cache_state =
  embeddingsCache :: "embedded_record list option"
  cacheTimestamp :: int

definition initial_cache :: cache_state where
  "initial_cache = \<lparr>embeddingsCache = None, cacheTimestamp = 0\<rparr>"

definition CACHE_DURATION :: int where
  "CACHE_DURATION = 3600000"

text \<open>
  The external services, as what they answer during one invocation: reading and parsing
  the embeddings object (the object is the JSON array that ingestion writes), the
  embedding model, and the generation model, which receives the prompt built from the
  question and the context. Each call made is recorded.
\<close>

record world =
  s3_embeddings :: "error + embedded_record list"
  embed :: "string \<Rightarrow> error + float64 list"
  complete :: "string \<Rightarrow> string \<Rightarrow> error + string"

datatype call = GetEmbeddingsObject | EmbedText string | Complete string string

text \<open>
  The \<open>try\<close> block of \<open>loadFaqEmbeddings\<close>: one read of the object; the cache and the
  timestamp are assigned only after the body has been parsed, and the \<open>catch\<close> logs and
  throws the error again.
\<close>

definition fetchEmbeddings ::
  "world \<Rightarrow> int \<Rightarrow> cache_state \<Rightarrow> (error + embedded_record list) \<times> cache_state \<times> call list" where
  "fetchEmbeddings w now st =
     (case s3_embeddings w of
        Inl e \<Rightarrow> (Inl e, st, [GetEmbeddingsObject])
      | Inr records \<Rightarrow>
          (Inr records,
           \<lparr>embeddingsCache = Some records, cacheTimestamp = now\<rparr>,
           [GetEmbeddingsObject]))"

definition loadFaqEmbeddings ::
  "world \<Rightarrow> int \<Rightarrow> cache_state \<Rightarrow> (error + embedded_record list) \<times> cache_state \<times> call list" where
  "loadFaqEmbeddings w now st =
     (case embeddingsCache st of
        Some cached \<Rightarrow>
          if now - cacheTimestamp st < CACHE_DURATION then (Inr cached, st, [])
          else fetchEmbeddings w now st
      | None \<Rightarrow> fetchEmbeddings w now st)"

definition generateEmbedding :: "world \<Rightarrow> string \<Rightarrow> (error + float64 list) \<times> call list" where
  "generateEmbedding w txt = (embed w (trim txt), [EmbedText (trim txt)])"

definition generateAnswer :: "world \<Rightarrow> string \<Rightarrow> string \<Rightarrow> (error + string) \<times> call list" where
  "generateAnswer w question context = (complete w question context, [Complete question context])"

text \<open>
  A value as \<open>JSON.parse\<close> returns it; an object is the list of its properties, each
  name once.
\<close>

datatype json =
  JNull
  | JBool bool
  | JNumber float64
  | JString string
  | JArray "json list"
  | JObject "(string \<times> json) list"

text \<open>
  The request: the HTTP method and \<open>JSON.parse(event.body || '{}')\<close>, which either throws
  a \<open>SyntaxError\<close> or gives a value (the empty object when the event has no body). The
  response: the status code and the fields of the JSON body (the CORS headers are the same
  in all responses).
\<close>

datatype request_body = Unparseable string | Parsed json

record event =
  httpMethod :: string
  body :: request_body

datatype response_body =
  NoFields
  | ErrorOnly string
  | ErrorMessage string string
  | Answer string

record response =
  statusCode :: nat
  payload :: response_body

definition corsResponse :: "nat \<Rightarrow> response_body \<Rightarrow> response" where
  "corsResponse code b = \<lparr>statusCode = code, payload = b\<rparr>"

definition internal_error :: "error \<Rightarrow> response" where
  "internal_error e = corsResponse 500 (ErrorMessage ''Internal server error'' (error_message e))"

definition answer_question ::
  "world \<Rightarrow> int \<Rightarrow> cache_state \<Rightarrow> string \<Rightarrow> response \<times> cache_state \<times> call list" where
  "answer_question w now st question =
     (case loadFaqEmbeddings w now st of
        (Inl e, st1, c1) \<Rightarrow> (internal_error e, st1, c1)
      | (Inr faqEmbeddings, st1, c1) \<Rightarrow>
          if length faqEmbeddings = 0
          then (corsResponse 503
                  (ErrorOnly ''FAQ knowledge base not initialized. Please run document processor first.''),
                st1, c1)
          else
            (case generateEmbedding w question of
               (Inl e, c2) \<Rightarrow> (internal_error e, st1, c1 @ c2)
             | (Inr questionEmbedding, c2) \<Rightarrow>
                 (case findRelevantChunks questionEmbedding faqEmbeddings 3 of
                    Inl e \<Rightarrow> (internal_error e, st1, c1 @ c2)
                  | Inr relevantChunks \<Rightarrow>
                      (case generateAnswer w question (buildContext relevantChunks) of
                         (Inl e, c3) \<Rightarrow> (internal_error e, st1, c1 @ c2 @ c3)
                       | (Inr answer, c3) \<Rightarrow>
                           (corsResponse 200 (Answer answer), st1, c1 @ c2 @ c3)))))"

text \<open>
  \<open>const { question } = body\<close>: destructuring \<open>null\<close> throws; any other value is read
  for its property \<open>question\<close>, which only an object can have (\<open>None\<close> is
  \<open>undefined\<close>).
\<close>

definition destructure_question :: "json \<Rightarrow> error + json option" where
  "destructure_question b =
     (case b of
        JNull \<Rightarrow>
          Inl (Thrown ''TypeError''
                 ''Cannot destructure property 'question' of 'body' as it is null.'')
      | JObject properties \<Rightarrow> Inr (map_of properties ''question'')
      | _ \<Rightarrow> Inr None)"

text \<open>\<open>!v\<close> for a value: \<open>null\<close>, \<open>false\<close>, zero, NaN and the empty string are falsy.\<close>

definition falsy :: "json \<Rightarrow> bool" where
  "falsy v \<longleftrightarrow> v = JNull \<or> v = JBool False \<or> v = JNumber (Finite 0) \<or> v = JNumber NaN \<or> v = JString []"

text \<open>
  The handler. After the check \<open>!question\<close> a truthy value that is not a string has no
  \<open>trim\<close> method, and the call throws.
\<close>

definition handler ::
  "world \<Rightarrow> int \<Rightarrow> cache_state \<Rightarrow> event \<Rightarrow> response \<times> cache_state \<times> call list" where
  "handler w now st ev =
     (if httpMethod ev = ''OPTIONS'' then (corsResponse 200 NoFields, st, [])
      else
        (case body ev of
           Unparseable msg \<Rightarrow> (internal_error (Thrown ''SyntaxError'' msg), st, [])
         | Parsed b \<Rightarrow>
             (case destructure_question b of
                Inl e \<Rightarrow> (internal_error e, st, [])
              | Inr None \<Rightarrow>
                  (corsResponse 400 (ErrorOnly ''Missing required parameter: question''), st, [])
              | Inr (Some question) \<Rightarrow>
                  if falsy question
                  then (corsResponse 400 (ErrorOnly ''Missing required parameter: question''), st, [])
                  else
                    (case question of
                       JString s \<Rightarrow>
                         if length (trim s) = 0
                         then (corsResponse 400 (ErrorOnly ''Missing required parameter: question''),
                               st, [])
                         else answer_question w now st s
                     | _ \<Rightarrow>
                         (internal_error (Thrown ''TypeError'' ''question.trim is not a function''),
                          st, [])))))"

section \<open>Chunking\<close>

text \<open>
  \<open>content.split(/(?<=[.!?])\s+/)\<close>: the text is cut at every run of white space that
  follows \<open>.\<close>, \<open>!\<close> or \<open>?\<close>; the run is dropped. \<open>piece\<close> is the text since the last
  cut, so its last character is what the lookbehind sees.
\<close>

function split_sentences :: "string \<Rightarrow> string \<Rightarrow> string list" where
  "split_sentences piece [] = [piece]"
| "split_sentences piece (c # cs) =
     (if is_whitespace c \<and> piece \<noteq> [] \<and> last piece \<in> {CHR ''.'', CHR ''!'', CHR ''?''}
      then piece # split_sentences [] (dropWhile is_whitespace cs)
      else split_sentences (piece @ [c]) cs)"
  by pat_completeness auto
termination
  by (relation "measure (\<lambda>(piece, cs). length cs)")
     (auto simp: le_imp_less_Suc length_dropWhile_le)

text \<open>The body of the \<open>for\<close> loop of \<open>chunkDocument\<close>, on \<open>(chunks, currentChunk)\<close>.\<close>

definition chunk_step :: "int \<Rightarrow> int \<Rightarrow> string \<Rightarrow> string list \<times> string \<Rightarrow> string list \<times> string" where
  "chunk_step chunkSize overlap sentence st =
     (case st of (chunks, currentChunk) \<Rightarrow>
        (let testChunk = currentChunk @ '' '' @ sentence
         in if int (length testChunk) > chunkSize \<and> length currentChunk > 0
            then (chunks @ [trim currentChunk],
                  slice_from currentChunk (- overlap) @ '' '' @ sentence)
            else (chunks, testChunk)))"

text \<open>
  The loop over the sentences, by the index of the array iterator. It is defined without
  a termination argument: \<open>None\<close> stands for a loop that does not end.
\<close>

partial_function (option) chunk_loop ::
  "string list \<Rightarrow> int \<Rightarrow> int \<Rightarrow> nat \<Rightarrow> string list \<times> string \<Rightarrow> (string list \<times> string) option" where
  "chunk_loop sentences chunkSize overlap i st =
     (if i < length sentences
      then chunk_loop sentences chunkSize overlap (i + 1)
             (chunk_step chunkSize overlap (sentences ! i) st)
      else Some st)"

definition chunkDocument :: "string \<Rightarrow> int \<Rightarrow> int \<Rightarrow> string list option" where
  "chunkDocument content chunkSize overlap =
     (case chunk_loop (split_sentences [] content) chunkSize overlap 0 ([], []) of
        None \<Rightarrow> None
      | Some (chunks, currentChunk) \<Rightarrow>
          Some (filter (\<lambda>chunk. length chunk > 50)
                  (if length (trim currentChunk) > 0 then chunks @ [trim currentChunk]
                   else chunks)))"

section \<open>Ingestion\<close>

definition CHUNK_SIZE :: int where
  "CHUNK_SIZE = 1000"

definition CHUNK_OVERLAP :: int where
  "CHUNK_OVERLAP = 200"

text \<open>
  An object of the bucket listing, with what reading it gives. \<open>put_embeddings\<close> is the
  answer of the store to the final write (\<open>None\<close>: written).
\<close>

record s3_object =
  Key :: string
  Content :: "error + string"

record ingest_world =
  listing :: "error + s3_object list"
  embed_chunk :: "string \<Rightarrow> error + float64 list"
  put_embeddings :: "error option"
  timestamp :: string

definition chunk_id :: "string \<Rightarrow> nat \<Rightarrow> string" where
  "chunk_id filename i = filename @ ''_chunk_'' @ show_nat i"

text \<open>\<open>file.Key.split('/').pop()\<close> and \<open>path.basename(doc.Key)\<close>, on a key that ends in
  \<open>.md\<close>: the part after the last \<open>/\<close>.\<close>

definition file_name :: "string \<Rightarrow> string" where
  "file_name key = last (split_on CHR ''/'' key)"

text \<open>\<open>file.Key.split('/')[1]\<close>; the listing has the prefix \<open>content/\<close>, so the key has a
  second part (without one JavaScript gives \<open>undefined\<close>).\<close>

definition key_category :: "string \<Rightarrow> string" where
  "key_category key =
     (case split_on CHR ''/'' key of
        _ # cat # _ \<Rightarrow> cat
      | _ \<Rightarrow> ''undefined'')"

text \<open>
  The content manager, \<open>handleProcessEmbeddings\<close>: the inner loop over the chunks of one
  file (an embedding failure ends the run), the outer loop over the files, and the write.
  The result is the collection handed to the store, or the error of the run; \<open>None\<close> is
  a run that does not end.
\<close>

function embed_chunks ::
  "ingest_world \<Rightarrow> string \<Rightarrow> string \<Rightarrow> string list \<Rightarrow> nat \<Rightarrow> error + embedded_record list" where
  "embed_chunks w filename cat chunks i =
     (if i < length chunks then
        (case embed_chunk w (trim (chunks ! i)) of
           Inl e \<Rightarrow> Inl e
         | Inr v \<Rightarrow>
             (case embed_chunks w filename cat chunks (i + 1) of
                Inl e \<Rightarrow> Inl e
              | Inr rest \<Rightarrow>
                  Inr (\<lparr>id' = chunk_id filename i, text' = chunks ! i, embedding = v,
                        metadata = \<lparr>source = filename, category = cat, chunkIndex = i,
                                     totalChunks = length chunks,
                                     lastUpdated = Some (timestamp w)\<rparr>\<rparr> # rest)))
      else Inr [])"
  by pat_completeness auto
termination
  by (relation "measure (\<lambda>(w, filename, cat, chunks, i). length chunks - i)") auto

declare embed_chunks.simps [simp del]

fun process_files ::
  "ingest_world \<Rightarrow> string list option \<Rightarrow> s3_object list \<Rightarrow> (error + embedded_record list) option" where
  "process_files w categories [] = Some (Inr [])"
| "process_files w categories (file # files) =
     (if (case categories of Some cs \<Rightarrow> key_category (Key file) \<notin> set cs | None \<Rightarrow> False)
      then process_files w categories files
      else
        (case Content file of
           Inl e \<Rightarrow> Some (Inl e)
         | Inr content \<Rightarrow>
             (case chunkDocument content CHUNK_SIZE CHUNK_OVERLAP of
                None \<Rightarrow> None
              | Some chunks \<Rightarrow>
                  (case embed_chunks w (file_name (Key file)) (key_category (Key file)) chunks 0 of
                     Inl e \<Rightarrow> Some (Inl e)
                   | Inr records \<Rightarrow>
                       (case process_files w categories files of
                          None \<Rightarrow> None
                        | Some (Inl e) \<Rightarrow> Some (Inl e)
                        | Some (Inr rest) \<Rightarrow> Some (Inr (records @ rest)))))))"

definition handleProcessEmbeddings ::
  "ingest_world \<Rightarrow> string list option \<Rightarrow> (error + embedded_record list) option" where
  "handleProcessEmbeddings w categories =
     (case listing w of
        Inl e \<Rightarrow> Some (Inl e)
      | Inr contents \<Rightarrow>
          (case process_files w categories (filter (\<lambda>obj. endsWith (Key obj) ''.md'') contents) of
             None \<Rightarrow> None
           | Some (Inl e) \<Rightarrow> Some (Inl e)
           | Some (Inr allEmbeddings) \<Rightarrow>
               (case put_embeddings w of
                  Some e \<Rightarrow> Some (Inl e)
                | None \<Rightarrow> Some (Inr allEmbeddings))))"

text \<open>
  The document processor, \<open>processFaqDocuments\<close>: the category comes from the file name,
  a chunk whose embedding fails is skipped (its index is still counted), and the records
  carry no \<open>lastUpdated\<close>.
\<close>

definition name_category :: "string \<Rightarrow> string" where
  "name_category filename =
     map (\<lambda>c. if c = CHR ''_'' then CHR '' '' else c) (replace_first ''.md'' [] filename)"

function embed_chunks_skipping ::
  "ingest_world \<Rightarrow> string \<Rightarrow> string list \<Rightarrow> nat \<Rightarrow> embedded_record list" where
  "embed_chunks_skipping w filename chunks i =
     (if i < length chunks then
        (case embed_chunk w (trim (chunks ! i)) of
           Inl e \<Rightarrow> embed_chunks_skipping w filename chunks (i + 1)
         | Inr v \<Rightarrow>
             \<lparr>id' = chunk_id filename i, text' = chunks ! i, embedding = v,
              metadata = \<lparr>source = filename, category = name_category filename,
                           chunkIndex = i, totalChunks = length chunks,
                           lastUpdated = None\<rparr>\<rparr>
             # embed_chunks_skipping w filename chunks (i + 1))
      else [])"
  by pat_completeness auto
termination
  by (relation "measure (\<lambda>(w, filename, chunks, i). length chunks - i)") auto

declare embed_chunks_skipping.simps [simp del]

fun process_documents ::
  "ingest_world \<Rightarrow> s3_object list \<Rightarrow> (error + embedded_record list) option" where
  "process_documents w [] = Some (Inr [])"
| "process_documents w (doc # documents) =
     (case Content doc of
        Inl e \<Rightarrow> Some (Inl e)
      | Inr content \<Rightarrow>
          (case chunkDocument content CHUNK_SIZE CHUNK_OVERLAP of
             None \<Rightarrow> None
           | Some chunks \<Rightarrow>
               (case process_documents w documents of
                  None \<Rightarrow> None
                | Some (Inl e) \<Rightarrow> Some (Inl e)
                | Some (Inr rest) \<Rightarrow>
                    Some (Inr (embed_chunks_skipping w (file_name (Key doc)) chunks 0 @ rest)))))"

definition processFaqDocuments :: "ingest_world \<Rightarrow> (error + embedded_record list) option" where
  "processFaqDocuments w =
     (case listing w of
        Inl e \<Rightarrow> Some (Inl e)
      | Inr contents \<Rightarrow>
          (case process_documents w (filter (\<lambda>obj. endsWith (Key obj) ''.md'') contents) of
             None \<Rightarrow> None
           | Some (Inl e) \<Rightarrow> Some (Inl e)
           | Some (Inr allEmbeddings) \<Rightarrow>
               (case put_embeddings w of
                  Some e \<Rightarrow> Some (Inl e)
                | None \<Rightarrow> Some (Inr allEmbeddings))))"

section \<open>Notions for the statements\<close>




text \<open>
  Every finite binary64 number is a whole multiple of the smallest subnormal number.
\<close>

definition min_subnormal :: real where
  "min_subnormal = 2 powi (- 1074)"

definition grid :: "real \<Rightarrow> bool" where
  "grid r \<longleftrightarrow> (\<exists>n::int. r = of_int n * min_subnormal)"

definition on_grid :: "float64 \<Rightarrow> bool" where
  "on_grid v \<longleftrightarrow> (case v of Finite s \<Rightarrow> grid s | _ \<Rightarrow> True)"

text \<open>
  The place of a number in the descending order of the numbers, as a sort key: the
  greater number has the smaller key.
\<close>

fun desc_key :: "float64 \<Rightarrow> nat \<times> real" where
  "desc_key PInf = (0, 0)"
| "desc_key (Finite v) = (1, - v)"
| "desc_key NInf = (2, 0)"
| "desc_key NaN = (3, 0)"

text \<open>
  The question text a request carries: the string under \<open>question\<close> of a body that is an
  object.
\<close>

definition question_text :: "request_body \<Rightarrow> string option" where
  "question_text b =
     (case b of
        Parsed (JObject properties) \<Rightarrow>
          (case map_of properties ''question'' of Some (JString s) \<Rightarrow> Some s | _ \<Rightarrow> None)
      | _ \<Rightarrow> None)"

section \<open>Test data\<close>

text \<open>
  A query and three stored records in two dimensions; the first and the third record
  have the same similarity to the query.
\<close>

definition test_record :: "string \<Rightarrow> float64 list \<Rightarrow> embedded_record" where
  "test_record i v =
     \<lparr>id' = i, text' = ''Open Settings.'', embedding = v,
      metadata = \<lparr>source = ''faq.md'', category = ''faq'', chunkIndex = 0, totalChunks = 1,
                   lastUpdated = None\<rparr>\<rparr>"

definition test_scored :: "string \<Rightarrow> float64 list \<Rightarrow> float64 \<Rightarrow> scored_record" where
  "test_scored i v s =
     \<lparr>id' = i, text' = ''Open Settings.'', embedding = v,
      metadata = \<lparr>source = ''faq.md'', category = ''faq'', chunkIndex = 0, totalChunks = 1,
                   lastUpdated = None\<rparr>,
      similarity = s\<rparr>"

definition test_query :: "float64 list" where
  "test_query = [Finite 1, Finite 0]"

definition test_snapshot :: "embedded_record list" where
  "test_snapshot =
     [test_record ''a'' [Finite 0, Finite 1], test_record ''b'' [Finite 1, Finite 0],
      test_record ''c'' [Finite 0, Finite 1]]"

text \<open>
  A query and three stored records where the products of the second record (with the
  binary64 number \<open>2\<^sup>1\<^sup>0\<^sup>2\<^sup>3\<close>) overflow: its similarity is NaN.
\<close>

definition huge :: real where
  "huge = 2 ^ 1023"

definition overflow_query :: "float64 list" where
  "overflow_query = [Finite 4, Finite 0]"

definition overflow_snapshot :: "embedded_record list" where
  "overflow_snapshot =
     [test_record ''a'' [Finite 0, Finite 4], test_record ''b'' [Finite huge, Finite 0],
      test_record ''c'' [Finite 4, Finite 0]]"

text \<open>
  Services for one request: the embeddings object is missing (\<open>NoSuchKey\<close>), is denied
  (another storage failure), or holds an empty collection.
\<close>

definition test_world :: "error + embedded_record list \<Rightarrow> world" where
  "test_world stored =
     \<lparr>s3_embeddings = stored, embed = (\<lambda>txt. Inr [Finite 1, Finite 0]),
      complete = (\<lambda>q c. Inr ''Open Settings.'')\<rparr>"

definition no_such_key :: error where
  "no_such_key = Thrown ''NoSuchKey'' ''The specified key does not exist.''"

definition access_denied :: error where
  "access_denied = Thrown ''AccessDenied'' ''Access Denied''"

text \<open>A POST request with the given parsed body, and one with the given question.\<close>

definition post_event :: "json \<Rightarrow> event" where
  "post_event b = \<lparr>httpMethod = ''POST'', body = Parsed b\<rparr>"

definition question_event :: "string \<Rightarrow> event" where
  "question_event q = post_event (JObject [(''question'', JString q)])"

text \<open>
  A bucket with two documents that have the same file name in two directories, as the
  upload endpoint of the content manager stores them (\<open>content/<category>/<filename>\<close>).
\<close>

definition test_bucket :: "string \<Rightarrow> ingest_world" where
  "test_bucket prefix =
     \<lparr>listing = Inr
        [\<lparr>Key = prefix @ ''account/faq.md'',
          Content = Inr ''Reset your password by going to Settings then Security then Change Password.''\<rparr>,
         \<lparr>Key = prefix @ ''cards/faq.md'',
          Content = Inr ''Lock a card at once. Open Settings then Security and choose Lock Card!''\<rparr>],
      embed_chunk = (\<lambda>txt. Inr [Finite 1, Finite 0]),
      put_embeddings = None,
      timestamp = ''2025-01-01T00:00:00.000Z''\<rparr>"

section \<open>Rounding\<close>

text \<open>
  Facts about \<open>to_float64\<close>: how to compute it at a given number, that whole numbers below
  \<open>2\<^sup>5\<^sup>3\<close> are kept, that numbers from \<open>2\<^sup>1\<^sup>0\<^sup>2\<^sup>4\<close> on overflow, that every result is on
  the grid of the smallest subnormal number, and that rounding a number of that grid keeps
  its sign.
\<close>

lemma round_even_near: "\<bar>t - of_int m\<bar> < 1 / 2 \<Longrightarrow> round_even t = m"
proof -
  assume a: "\<bar>t - of_int m\<bar> < 1 / 2"
  show ?thesis
  proof (cases "of_int m \<le> t")
    case True
    with a have "\<lfloor>t\<rfloor> = m" by (intro floor_unique) auto
    with a True show ?thesis by (simp add: round_even_def Let_def)
  next
    case False
    with a have f: "\<lfloor>t\<rfloor> = m - 1" by (intro floor_unique) auto
    with a False show ?thesis by (auto simp: round_even_def Let_def)
  qed
qed

lemma round_even_of_int [simp]: "round_even (of_int m) = m"
  by (rule round_even_near) simp

lemma floor_le_round_even: "\<lfloor>t\<rfloor> \<le> round_even t"
  by (simp add: round_even_def Let_def)

lemma round_even_le_floor_plus: "round_even t \<le> \<lfloor>t\<rfloor> + 1"
  by (simp add: round_even_def Let_def)

lemma round_even_ge: "of_int m \<le> t \<Longrightarrow> m \<le> round_even t"
proof -
  assume "of_int m \<le> t"
  then have "m \<le> \<lfloor>t\<rfloor>" by (simp add: le_floor_iff)
  with floor_le_round_even [of t] show ?thesis by simp
qed

lemma round_even_le: "t \<le> of_int m \<Longrightarrow> round_even t \<le> m"
proof (cases "t = of_int m")
  case True
  then show ?thesis by simp
next
  case False
  assume "t \<le> of_int m"
  with False have "t < of_int m" by simp
  then have "\<lfloor>t\<rfloor> < m" by (simp add: floor_less_iff)
  with round_even_le_floor_plus [of t] show ?thesis by simp
qed

lemma powr_powi: "(2::real) powr real_of_int n = 2 powi n"
  by (rule powr_real_of_int') simp_all

lemma pow2_add: "(2::real) powi (a + b) = 2 powi a * 2 powi b"
  by (rule power_int_add) simp

lemma pow2_split: "(2::real) powi k = 2 powi a * 2 powi (k - a)"
  using pow2_add [of a "k - a"] by simp

lemma floor_log2_bounds:
  assumes "x \<noteq> 0"
  shows "2 powi \<lfloor>log 2 \<bar>x\<bar>\<rfloor> \<le> \<bar>x\<bar> \<and> \<bar>x\<bar> < 2 powi (\<lfloor>log 2 \<bar>x\<bar>\<rfloor> + 1)"
proof -
  from assms have pos: "0 < \<bar>x\<bar>" by simp
  have "\<lfloor>log 2 \<bar>x\<bar>\<rfloor> = \<lfloor>log 2 \<bar>x\<bar>\<rfloor>" ..
  then have "2 powr of_int \<lfloor>log 2 \<bar>x\<bar>\<rfloor> \<le> \<bar>x\<bar> \<and>
      \<bar>x\<bar> < 2 powr of_int (\<lfloor>log 2 \<bar>x\<bar>\<rfloor> + 1)"
    using pos by (subst (asm) floor_log_eq_powr_iff) simp_all
  then show ?thesis by (simp only: powr_powi)
qed

lemma binade_eq:
  assumes "2 powi k \<le> \<bar>x\<bar>" and "\<bar>x\<bar> < 2 powi (k + 1)" and "- 1022 \<le> k"
  shows "binade x = k"
proof -
  from assms(1) have pos: "0 < \<bar>x\<bar>"
    using zero_less_power_int [of "2::real" k] by linarith
  have "2 powr of_int k \<le> \<bar>x\<bar> \<and> \<bar>x\<bar> < 2 powr of_int (k + 1)"
    using assms(1,2) by (simp only: powr_powi)
  then have "\<lfloor>log 2 \<bar>x\<bar>\<rfloor> = k"
    using pos by (subst floor_log_eq_powr_iff) simp_all
  with assms(3) show ?thesis by (simp add: binade_def)
qed

lemma to_float64_eval:
  assumes "2 powi k \<le> \<bar>x\<bar>" and "\<bar>x\<bar> < 2 powi (k + 1)" and "- 1022 \<le> k"
    and "round_even (x / 2 powi (k - 52)) = m"
    and "\<bar>of_int m * 2 powi (k - 52)\<bar> < overflow_threshold"
  shows "to_float64 x = Finite (of_int m * 2 powi (k - 52))"
proof -
  from assms(1) have "x \<noteq> 0"
    using zero_less_power_int [of "2::real" k] by linarith
  with binade_eq [OF assms(1-3)] assms(4,5) show ?thesis
    by (simp add: to_float64_def Let_def)
qed


lemma scaled_ge_one:
  assumes "grid x" and "0 < x"
  shows "1 \<le> x / 2 powi (binade x - 52)"
proof (cases "- 1022 \<le> \<lfloor>log 2 \<bar>x\<bar>\<rfloor>")
  case True
  let ?k = "\<lfloor>log 2 \<bar>x\<bar>\<rfloor>"
  from True have b: "binade x = ?k" by (simp add: binade_def)
  from assms(2) floor_log2_bounds [of x] have "2 powi ?k \<le> x" by simp
  moreover have "(2::real) powi ?k = 2 powi 52 * 2 powi (?k - 52)"
    by (rule pow2_split)
  ultimately have "(2::real) powi 52 * 2 powi (?k - 52) \<le> x" by simp
  then have "(2::real) powi 52 \<le> x / 2 powi (?k - 52)"
    by (simp add: pos_le_divide_eq)
  moreover have "(1::real) \<le> 2 powi 52" by simp
  ultimately have "1 \<le> x / 2 powi (?k - 52)" by linarith
  then show ?thesis by (simp only: b)
next
  case False
  then have b: "binade x = - 1022" by (simp add: binade_def)
  from assms(1) obtain n :: int where n: "x = of_int n * min_subnormal" by (auto simp: grid_def)
  have mpos: "0 < min_subnormal" by (simp add: min_subnormal_def)
  with assms(2) n have "0 < n" by (simp add: zero_less_mult_iff)
  then have "(1::real) \<le> of_int n" by simp
  moreover have "(2::real) powi (binade x - 52) = min_subnormal"
    by (simp only: b min_subnormal_def) simp
  ultimately show ?thesis using n mpos by simp
qed

lemma to_float64_positive:
  assumes "grid x" and "0 < x"
  shows "to_float64 x = PInf \<or> (\<exists>y. to_float64 x = Finite y \<and> 0 < y)"
proof -
  let ?u = "(2::real) powi (binade x - 52)"
  from scaled_ge_one [OF assms] have "1 \<le> round_even (x / ?u)"
    using round_even_ge [of 1 "x / ?u"] by simp
  then have "0 < of_int (round_even (x / ?u)) * ?u" by simp
  with assms(2) show ?thesis by (auto simp: to_float64_def Let_def)
qed

lemma grid_minus: "grid x \<Longrightarrow> grid (- x)"
proof -
  assume "grid x"
  then obtain n :: int where "x = of_int n * min_subnormal" by (auto simp: grid_def)
  then have "- x = of_int (- n) * min_subnormal" by simp
  then show ?thesis unfolding grid_def by blast
qed

lemma binade_minus: "binade (- x) = binade x"
  by (simp add: binade_def)

lemma to_float64_negative:
  assumes "grid x" and "x < 0"
  shows "to_float64 x = NInf \<or> (\<exists>y. to_float64 x = Finite y \<and> y < 0)"
proof -
  let ?u = "(2::real) powi (binade x - 52)"
  from scaled_ge_one [OF grid_minus [OF assms(1)]] assms(2)
  have "1 \<le> - x / ?u" by (simp add: binade_minus)
  then have "x / ?u \<le> of_int (- 1)" by simp
  then have "round_even (x / ?u) \<le> - 1" by (rule round_even_le)
  then have "real_of_int (round_even (x / ?u)) < 0" by simp
  then have "of_int (round_even (x / ?u)) * ?u < 0"
    by (simp add: mult_less_0_iff)
  with assms(2) show ?thesis by (auto simp: to_float64_def Let_def)
qed

lemma to_float64_grid:
  assumes "to_float64 x = Finite y"
  shows "grid y"
proof (cases "x = 0")
  case True
  with assms have "y = of_int 0 * min_subnormal" by (simp add: to_float64_def)
  then show ?thesis unfolding grid_def by blast
next
  case False
  let ?m = "round_even (x / 2 powi (binade x - 52))"
  from False assms have y: "y = of_int ?m * 2 powi (binade x - 52)"
    by (auto simp: to_float64_def Let_def split: if_splits)
  have "- 1022 \<le> binade x" by (simp add: binade_def)
  then have e: "0 \<le> binade x - 52 + 1074" by simp
  have "(2::real) powi (binade x - 52) = 2 powi (binade x - 52 + 1074) * min_subnormal"
    using pow2_add [of "binade x - 52 + 1074" "- 1074"]
    by (simp only: add_uminus_conv_diff add_diff_cancel min_subnormal_def)
  also have "(2::real) powi (binade x - 52 + 1074) = 2 ^ nat (binade x - 52 + 1074)"
    using e by (rule power_int_nonneg_exp)
  finally have "y = of_int (?m * 2 ^ nat (binade x - 52 + 1074)) * min_subnormal"
    using y by simp
  then show ?thesis unfolding grid_def by blast
qed

lemma grid_diff: "grid x \<Longrightarrow> grid y \<Longrightarrow> grid (x - y)"
proof -
  assume "grid x" "grid y"
  then obtain n m :: int where "x = of_int n * min_subnormal" "y = of_int m * min_subnormal"
    by (auto simp: grid_def)
  then have "x - y = of_int (n - m) * min_subnormal" by (simp add: algebra_simps)
  then show ?thesis unfolding grid_def by blast
qed

lemma grid_0: "grid 0"
  unfolding grid_def by (rule exI [of _ 0]) simp

text \<open>Integers below 2^53 in magnitude are kept by rounding.\<close>

lemma to_float64_of_int:
  assumes "\<bar>m\<bar> < 2 ^ 53"
  shows "to_float64 (of_int m) = Finite (of_int m)"
proof (cases "m = 0")
  case True
  then show ?thesis by (simp add: to_float64_def)
next
  case False
  let ?x = "real_of_int m"
  let ?k = "\<lfloor>log 2 \<bar>?x\<bar>\<rfloor>"
  from False have x0: "?x \<noteq> 0" by simp
  note bnd = floor_log2_bounds [OF x0]
  have k0: "0 \<le> ?k"
  proof (rule ccontr)
    assume "\<not> 0 \<le> ?k"
    then have "?k + 1 \<le> 0" by linarith
    then have "(2::real) powi (?k + 1) \<le> 2 powi 0"
      by (intro power_int_increasing) simp_all
    with bnd have "\<bar>?x\<bar> < 1" by simp
    with False show False by (simp flip: of_int_abs)
  qed
  have k52: "?k \<le> 52"
  proof (rule ccontr)
    assume "\<not> ?k \<le> 52"
    then have "53 \<le> ?k" by linarith
    then have "(2::real) powi 53 \<le> 2 powi ?k"
      by (intro power_int_increasing) simp_all
    with bnd have "2 ^ 53 \<le> \<bar>?x\<bar>" by simp
    then have "2 ^ 53 \<le> \<bar>m\<bar>" by (simp flip: of_int_abs)
    with assms show False by simp
  qed
  from k0 have b: "binade ?x = ?k" by (simp add: binade_def)
  have u: "(2::real) powi (?k - 52) = 1 / 2 ^ nat (52 - ?k)"
  proof -
    have "(2::real) powi (?k - 52) = 2 powi (- (52 - ?k))" by simp
    also have "\<dots> = 1 / 2 powi (52 - ?k)" by (rule power_int_minus_divide)
    also have "(2::real) powi (52 - ?k) = 2 ^ nat (52 - ?k)"
      using k52 by (intro power_int_nonneg_exp) simp
    finally show ?thesis .
  qed
  have sc: "?x / 2 powi (?k - 52) = of_int (m * 2 ^ nat (52 - ?k))"
    by (simp add: u)
  have r: "round_even (?x / 2 powi (?k - 52)) = m * 2 ^ nat (52 - ?k)"
    by (simp only: sc round_even_of_int)
  have y: "of_int (m * 2 ^ nat (52 - ?k)) * (2::real) powi (?k - 52) = ?x"
    by (simp add: u)
  have "\<bar>?x\<bar> < overflow_threshold"
  proof -
    from assms have "\<bar>?x\<bar> < 2 ^ 53" by (simp flip: of_int_abs)
    also have "(2::real) ^ 53 \<le> 2 ^ 1024" by (rule power_increasing) simp_all
    finally show ?thesis by (simp only: overflow_threshold_def)
  qed
  then have ov: "\<bar>of_int (m * 2 ^ nat (52 - ?k)) * (2::real) powi (?k - 52)\<bar> < overflow_threshold"
    by (simp only: y)
  from k0 have "- 1022 \<le> ?k" by linarith
  from to_float64_eval [OF conjunct1 [OF bnd] conjunct2 [OF bnd] this r ov]
  show ?thesis by (simp only: y)
qed


lemma to_float64_overflow:
  assumes "overflow_threshold \<le> x"
  shows "to_float64 x = PInf"
proof -
  have t: "overflow_threshold = 2 powi 1024" by (simp add: overflow_threshold_def)
  have tpos: "0 < overflow_threshold" by (simp add: overflow_threshold_def)
  with assms have x: "0 < x" by linarith
  let ?k = "\<lfloor>log 2 \<bar>x\<bar>\<rfloor>"
  from x have x0: "x \<noteq> 0" by simp
  note bnd = floor_log2_bounds [OF x0]
  have k: "1024 \<le> ?k"
  proof (rule ccontr)
    assume "\<not> 1024 \<le> ?k"
    then have "?k + 1 \<le> 1024" by linarith
    then have "(2::real) powi (?k + 1) \<le> 2 powi 1024"
      by (intro power_int_increasing) simp_all
    with bnd x assms t show False by simp
  qed
  then have b: "binade x = ?k" by (simp add: binade_def)
  let ?u = "(2::real) powi (?k - 52)"
  have split: "(2::real) powi ?k = 2 powi 52 * ?u" by (rule pow2_split)
  have upos: "0 < ?u" by simp
  from bnd x have "2 powi 52 * ?u \<le> x" by (simp only: split [symmetric]) simp
  then have "(2::real) powi 52 \<le> x / ?u" using upos by (simp add: pos_le_divide_eq)
  then have "of_int (2 ^ 52) \<le> x / ?u" by simp
  then have "2 ^ 52 \<le> round_even (x / ?u)" by (rule round_even_ge)
  then have "(2::real) powi 52 \<le> of_int (round_even (x / ?u))"
    by (metis of_int_le_iff of_int_numeral of_int_power power_int_numeral)
  then have "2 powi 52 * ?u \<le> of_int (round_even (x / ?u)) * ?u"
    using upos by (simp only: mult_le_cancel_right_pos)
  then have "2 powi ?k \<le> of_int (round_even (x / ?u)) * ?u"
    by (simp only: split [symmetric])
  moreover have "(2::real) powi 1024 \<le> 2 powi ?k"
    using k by (intro power_int_increasing) simp_all
  ultimately have "overflow_threshold \<le> \<bar>of_int (round_even (x / ?u)) * ?u\<bar>"
    using t by linarith
  with x x0 b show ?thesis by (simp add: to_float64_def Let_def)
qed






section \<open>Cosine similarity: exact arithmetic\<close>







lemma cosineSimilarity_of_fold:
  assumes "length a = length b"
    and "fold (cosine_step a b) [0..<length a] (Finite 0, Finite 0, Finite 0) = (d, na, nb)"
  shows "cosineSimilarity a b =
     (if fmul (fsqrt na) (fsqrt nb) = Finite 0 then Inr (Finite 0)
      else Inr (fdiv d (fmul (fsqrt na) (fsqrt nb))))"
  using assms by (simp add: cosineSimilarity_def Let_def)


section \<open>Cosine similarity: the claims\<close>

text \<open>
  C6. Two vectors of unequal length: \<open>cosineSimilarity\<close> throws
  \<open>Error('Vectors must have the same length')\<close> and returns no score, whatever the
  vectors hold.
\<close>

theorem cosineSimilarity_dimension_mismatch:
  "length vecA \<noteq> length vecB \<Longrightarrow>
   cosineSimilarity vecA vecB = Inl (Thrown ''Error'' ''Vectors must have the same length'')"
  by (simp add: cosineSimilarity_def)

theorem cosineSimilarity_dimension_mismatch_witness:
  "cosineSimilarity [Finite 1, Finite 2] [Finite 1] =
     Inl (Thrown ''Error'' ''Vectors must have the same length'')"
  using cosineSimilarity_dimension_mismatch [of "[Finite 1, Finite 2]" "[Finite 1]"] by simp

lemma small_numbers:
  "to_float64 1 = Finite 1" "to_float64 4 = Finite 4" "to_float64 5 = Finite 5"
  "to_float64 9 = Finite 9" "to_float64 16 = Finite 16" "to_float64 25 = Finite 25"
  "to_float64 26 = Finite 26"
  using to_float64_of_int [of 1] to_float64_of_int [of 4] to_float64_of_int [of 5]
    to_float64_of_int [of 9] to_float64_of_int [of 16] to_float64_of_int [of 25]
    to_float64_of_int [of 26]
  by simp_all

lemma to_float64_0: "to_float64 0 = Finite 0"
  by (simp add: to_float64_def)

lemma small_roots: "sqrt 16 = 4" "sqrt 25 = 5"
  by (rule real_sqrt_unique; simp)+








section \<open>Retrieval: ranking\<close>

text \<open>
  The comparator \<open>b.similarity - a.similarity\<close> on two numbers that are not NaN: its value
  is at most zero exactly when \<open>a\<close> is not below \<open>b\<close>.
\<close>

lemma sort_le_zero_to_float64:
  assumes "grid z"
  shows "sort_le_zero (to_float64 z) \<longleftrightarrow> z \<le> 0"
proof -
  consider "0 < z" | "z = 0" | "z < 0" by linarith
  then show ?thesis
  proof cases
    case 1
    with to_float64_positive [OF assms] show ?thesis by auto
  next
    case 2
    then show ?thesis by (simp add: to_float64_def)
  next
    case 3
    with to_float64_negative [OF assms] show ?thesis by auto
  qed
qed

lemma on_grid_to_float64: "on_grid (to_float64 z)"
  by (cases "to_float64 z") (simp_all add: on_grid_def to_float64_grid)

lemma on_grid_fdiv: "on_grid (fdiv x y)"
  by (cases x; cases y)
     (simp_all add: on_grid_def grid_0 signed_infinity_def on_grid_to_float64 [unfolded on_grid_def])

lemma cosineSimilarity_on_grid:
  assumes "cosineSimilarity a b = Inr v"
  shows "on_grid v"
proof -
  from assms have len: "length a = length b"
    by (auto simp: cosineSimilarity_def split: if_splits)
  obtain d na nb where
    f: "fold (cosine_step a b) [0..<length a] (Finite 0, Finite 0, Finite 0) = (d, na, nb)"
    by (metis prod_cases3)
  from cosineSimilarity_of_fold [OF len f] assms
  have "v = Finite 0 \<or> v = fdiv d (fmul (fsqrt na) (fsqrt nb))"
    by (auto split: if_splits)
  then show ?thesis
    using on_grid_fdiv [of d "fmul (fsqrt na) (fsqrt nb)"] by (auto simp: on_grid_def grid_0)
qed

lemma comparator_desc_key:
  assumes "on_grid x" and "on_grid y" and "x \<noteq> NaN" and "y \<noteq> NaN"
  shows "sort_le_zero (fsub y x) \<longleftrightarrow> desc_key x \<le> desc_key y"
proof (cases x)
  case fx: (Finite a)
  show ?thesis
  proof (cases y)
    case (Finite b)
    with fx assms have "grid (b - a)" by (simp add: on_grid_def grid_diff)
    from sort_le_zero_to_float64 [OF this] fx Finite show ?thesis
      by (simp add: fsub_def)
  next
    case PInf
    with fx show ?thesis by (simp add: fsub_def)
  next
    case NInf
    with fx show ?thesis by (simp add: fsub_def)
  next
    case NaN
    with assms show ?thesis by simp
  qed
next
  case PInf
  with assms show ?thesis by (cases y) (simp_all add: fsub_def)
next
  case NInf
  with assms show ?thesis by (cases y) (simp_all add: fsub_def)
next
  case NaN
  with assms show ?thesis by simp
qed

lemma insert_by_insort_key:
  assumes "\<forall>y\<in>set ys. sort_le_zero (c x y) \<longleftrightarrow> f x \<le> f y"
  shows "insert_by c x ys = insort_key f x ys"
  using assms by (induction ys) auto

lemma array_sort_sort_key:
  assumes "\<forall>x\<in>set xs. \<forall>y\<in>set xs. sort_le_zero (c x y) \<longleftrightarrow> f x \<le> f y"
  shows "array_sort c xs = sort_key f xs"
  using assms
proof (induction xs)
  case Nil
  show ?case by (simp add: array_sort_def)
next
  case (Cons x xs)
  then have "array_sort c xs = sort_key f xs" by simp
  moreover have "insert_by c x (sort_key f xs) = insort_key f x (sort_key f xs)"
    using Cons.prems by (intro insert_by_insort_key) simp
  ultimately show ?case by (simp add: array_sort_def)
qed

lemma mset_insert_by: "mset (insert_by c x ys) = add_mset x (mset ys)"
  by (induction ys) auto

lemma mset_array_sort: "mset (array_sort c xs) = mset xs"
  by (induction xs) (simp_all add: array_sort_def mset_insert_by)

lemma length_array_sort: "length (array_sort c xs) = length xs"
  using mset_array_sort [of c xs] by (metis size_mset)

lemma slice_take: "0 \<le> k \<Longrightarrow> slice xs 0 k = take (nat k) xs"
  by (simp add: slice_def relative_index_def Let_def min_def)

lemma slice_negative: "k < 0 \<Longrightarrow> slice xs 0 k = take (nat (int (length xs) + k)) xs"
  by (simp add: slice_def relative_index_def Let_def max_def)

lemma score_Inr:
  "length (embedding item) = length q \<Longrightarrow> \<exists>s. score q item = Inr s"
  by (simp add: score_def cosineSimilarity_def Let_def split: prod.splits)

lemma map_scores_Inr:
  "\<forall>item\<in>set snap. length (embedding item) = length q \<Longrightarrow>
   \<exists>scored. map_scores q snap = Inr scored"
proof (induction snap)
  case Nil
  then show ?case by simp
next
  case (Cons item snap)
  then obtain scored where "map_scores q snap = Inr scored" by auto
  moreover obtain s where "score q item = Inr s"
    using score_Inr [of item q] Cons.prems by auto
  ultimately show ?case by simp
qed

lemma map_scores_pointwise:
  "map_scores q snap = Inr scored \<Longrightarrow> map (score q) snap = map Inr scored"
  by (induction snap arbitrary: scored) (auto split: sum.splits)

lemma map_scores_length:
  "map_scores q snap = Inr scored \<Longrightarrow> length scored = length snap"
  using map_scores_pointwise [of q snap scored] by (metis length_map)

lemma map_scores_similarity:
  assumes "map_scores q snap = Inr scored" and "r \<in> set scored"
  shows "\<exists>item\<in>set snap. cosineSimilarity q (embedding item) = Inr (similarity r)"
  using assms
proof (induction snap arbitrary: scored)
  case Nil
  then show ?case by simp
next
  case (Cons item snap)
  from Cons.prems(1) obtain s ss where
    s: "score q item = Inr s" "map_scores q snap = Inr ss" "scored = s # ss"
    by (auto split: sum.splits)
  from s(1) have "cosineSimilarity q (embedding item) = Inr (similarity s)"
    by (auto simp: score_def split: sum.splits)
  with Cons.IH [OF s(2)] Cons.prems(2) s(3) show ?case by auto
qed

lemma findRelevantChunks_sorted:
  assumes "map_scores q snapshot = Inr scored"
  shows "findRelevantChunks q snapshot k =
           Inr (slice (array_sort (\<lambda>a b. fsub (similarity b) (similarity a)) scored) 0 k)"
  using assms by (simp add: findRelevantChunks_def)

lemma sorted_descending:
  assumes "sorted (map (\<lambda>r. desc_key (similarity r)) xs)"
    and "\<forall>r\<in>set xs. similarity r \<noteq> NaN"
  shows "sorted_wrt (\<lambda>a b. fle (similarity b) (similarity a)) xs"
proof -
  have key: "desc_key x \<le> desc_key y \<Longrightarrow> x \<noteq> NaN \<Longrightarrow> y \<noteq> NaN \<Longrightarrow> fle y x" for x y
    by (cases x; cases y) simp_all
  from assms show ?thesis
    by (induction xs) (auto intro: key)
qed

lemma desc_key_inject: "desc_key x = desc_key y \<Longrightarrow> x = y"
  by (cases x; cases y) simp_all

lemma test_cosine:
  "cosineSimilarity [Finite 1, Finite 0] [Finite 0, Finite 1] = Inr (Finite 0)"
  "cosineSimilarity [Finite 1, Finite 0] [Finite 1, Finite 0] = Inr (Finite 1)"
  by (simp_all add: cosineSimilarity_def cosine_step_def upt_rec small_numbers to_float64_0)

lemma test_map_scores:
  "map_scores test_query test_snapshot =
     Inr [test_scored ''a'' [Finite 0, Finite 1] (Finite 0),
          test_scored ''b'' [Finite 1, Finite 0] (Finite 1),
          test_scored ''c'' [Finite 0, Finite 1] (Finite 0)]"
  by (simp add: test_query_def test_snapshot_def test_record_def test_scored_def score_def
      test_cosine)

lemma test_dimensions:
  "\<forall>item\<in>set test_snapshot. length (embedding item) = length test_query"
  by (simp add: test_snapshot_def test_record_def test_query_def)

lemma test_no_nan:
  "\<forall>item\<in>set test_snapshot. cosineSimilarity test_query (embedding item) \<noteq> Inr NaN"
  by (simp add: test_snapshot_def test_record_def test_query_def test_cosine)

lemma overflow_products:
  "to_float64 (4 * huge) = PInf" "to_float64 (huge * huge) = PInf"
  by (rule to_float64_overflow, simp add: overflow_threshold_def huge_def)+

lemma overflow_cosine:
  "cosineSimilarity [Finite 4, Finite 0] [Finite 0, Finite 4] = Inr (Finite 0)"
  "cosineSimilarity [Finite 4, Finite 0] [Finite 4, Finite 0] = Inr (Finite 1)"
  by (simp_all add: cosineSimilarity_def cosine_step_def upt_rec small_numbers to_float64_0
      small_roots)

lemma overflow_cosine_nan:
  "cosineSimilarity [Finite 4, Finite 0] [Finite huge, Finite 0] = Inr NaN"
proof -
  have f: "fold (cosine_step [Finite 4, Finite 0] [Finite huge, Finite 0])
      [0..<length [Finite 4, Finite 0 :: float64]] (Finite 0, Finite 0, Finite 0) =
      (PInf, Finite 16, PInf)"
    using overflow_products
    by (simp add: cosine_step_def upt_rec small_numbers to_float64_0)
  show ?thesis
    by (simp add: cosineSimilarity_of_fold [OF _ f] small_roots small_numbers signed_infinity_def)
qed

lemma overflow_map_scores:
  "map_scores overflow_query overflow_snapshot =
     Inr [test_scored ''a'' [Finite 0, Finite 4] (Finite 0),
          test_scored ''b'' [Finite huge, Finite 0] NaN,
          test_scored ''c'' [Finite 4, Finite 0] (Finite 1)]"
  by (simp add: overflow_query_def overflow_snapshot_def test_record_def test_scored_def score_def
      overflow_cosine overflow_cosine_nan)

text \<open>
  Without NaN among the scores the comparator is consistent, and the sorted array is the
  stable ranking by descending similarity.
\<close>

lemma scores_ordered:
  assumes "map_scores q snapshot = Inr scored"
    and "\<forall>item\<in>set snapshot. cosineSimilarity q (embedding item) \<noteq> Inr NaN"
    and "r \<in> set scored"
  shows "on_grid (similarity r) \<and> similarity r \<noteq> NaN"
proof -
  from map_scores_similarity [OF assms(1,3)] obtain item where
    item: "item \<in> set snapshot" "cosineSimilarity q (embedding item) = Inr (similarity r)"
    by blast
  from item(2) have "on_grid (similarity r)" by (rule cosineSimilarity_on_grid)
  moreover from item assms(2) have "similarity r \<noteq> NaN" by force
  ultimately show ?thesis ..
qed

lemma ranking:
  assumes "map_scores q snapshot = Inr scored"
    and "\<forall>item\<in>set snapshot. cosineSimilarity q (embedding item) \<noteq> Inr NaN"
  shows "sorted_wrt (\<lambda>a b. fle (similarity b) (similarity a))
           (array_sort (\<lambda>a b. fsub (similarity b) (similarity a)) scored) \<and>
         (\<forall>s. filter (\<lambda>r. similarity r = s)
                 (array_sort (\<lambda>a b. fsub (similarity b) (similarity a)) scored) =
               filter (\<lambda>r. similarity r = s) scored)"
proof -
  let ?key = "\<lambda>r. desc_key (similarity r)"
  let ?ranked = "sort_key ?key scored"
  note ok = scores_ordered [OF assms]
  have "\<forall>x\<in>set scored. \<forall>y\<in>set scored.
      sort_le_zero (fsub (similarity y) (similarity x)) \<longleftrightarrow> ?key x \<le> ?key y"
    using ok by (simp add: comparator_desc_key)
  then have sorted_array:
    "array_sort (\<lambda>a b. fsub (similarity b) (similarity a)) scored = ?ranked"
    by (rule array_sort_sort_key)
  have "sorted (map ?key ?ranked)" by simp
  moreover have "\<forall>r\<in>set ?ranked. similarity r \<noteq> NaN" using ok by simp
  ultimately have srt: "sorted_wrt (\<lambda>a b. fle (similarity b) (similarity a)) ?ranked"
    by (rule sorted_descending)
  have stable: "\<forall>s. filter (\<lambda>r. similarity r = s) ?ranked = filter (\<lambda>r. similarity r = s) scored"
  proof
    fix s
    have eq: "(\<lambda>r. similarity r = s) = (\<lambda>r. ?key r = desc_key s)"
      by (auto dest: desc_key_inject)
    show "filter (\<lambda>r. similarity r = s) ?ranked = filter (\<lambda>r. similarity r = s) scored"
      unfolding eq by (rule sort_key_stable)
  qed
  from srt stable show ?thesis by (simp only: sorted_array) simp
qed

text \<open>
  C3, as stated, fails when a score is NaN. The query \<open>[4, 0]\<close> and the stored vectors
  \<open>[0, 4]\<close>, \<open>[2\<^sup>1\<^sup>0\<^sup>2\<^sup>3, 0]\<close>, \<open>[4, 0]\<close> have equal dimensions; the products of the second
  vector overflow and its score is \<open>Infinity / Infinity\<close>, NaN. Every comparison with it
  gives NaN, the sort leaves the store order, and the record with score \<open>0\<close> stays before
  the record with score \<open>1\<close>.
\<close>

theorem findRelevantChunks_nan_counterexample:
  "findRelevantChunks overflow_query overflow_snapshot 3 =
     Inr [test_scored ''a'' [Finite 0, Finite 4] (Finite 0),
          test_scored ''b'' [Finite huge, Finite 0] NaN,
          test_scored ''c'' [Finite 4, Finite 0] (Finite 1)] \<and>
   \<not> fle (similarity (test_scored ''c'' [Finite 4, Finite 0] (Finite 1)))
         (similarity (test_scored ''a'' [Finite 0, Finite 4] (Finite 0)))"
  by (simp add: findRelevantChunks_sorted [OF overflow_map_scores] array_sort_def slice_take
      test_scored_def fsub_def)

text \<open>
  C3, as the code has it. When every stored vector has the dimension of the query, no
  similarity is NaN and \<open>k \<ge> 0\<close>, the call returns: the scored records (\<open>scored\<close>, one per
  stored record, in store order) are ranked by similarity, highest first, records of
  equal similarity keep their store order, and the result is the first \<open>k\<close> of the
  ranking, so it has at most \<open>k\<close> entries.
\<close>

theorem findRelevantChunks_sorted_topk:
  assumes "\<forall>item\<in>set snapshot. length (embedding item) = length q"
    and "\<forall>item\<in>set snapshot. cosineSimilarity q (embedding item) \<noteq> Inr NaN"
    and "0 \<le> k"
  shows "\<exists>scored ranked.
           map_scores q snapshot = Inr scored \<and>
           map (score q) snapshot = map Inr scored \<and>
           mset ranked = mset scored \<and>
           sorted_wrt (\<lambda>a b. fle (similarity b) (similarity a)) ranked \<and>
           (\<forall>s. filter (\<lambda>r. similarity r = s) ranked = filter (\<lambda>r. similarity r = s) scored) \<and>
           findRelevantChunks q snapshot k = Inr (take (nat k) ranked) \<and>
           length (take (nat k) ranked) \<le> nat k"
proof -
  from map_scores_Inr [OF assms(1)] obtain scored where sc: "map_scores q snapshot = Inr scored"
    by blast
  let ?ranked = "array_sort (\<lambda>a b. fsub (similarity b) (similarity a)) scored"
  have "findRelevantChunks q snapshot k = Inr (take (nat k) ?ranked)"
    using assms(3) by (simp add: findRelevantChunks_sorted [OF sc] slice_take)
  with ranking [OF sc assms(2)] show ?thesis
    using sc map_scores_pointwise [OF sc]
    by (intro exI [of _ scored] exI [of _ ?ranked]) (simp add: mset_array_sort)
qed

theorem findRelevantChunks_sorted_topk_witness:
  "\<exists>ranked.
     mset ranked =
       mset [test_scored ''a'' [Finite 0, Finite 1] (Finite 0),
             test_scored ''b'' [Finite 1, Finite 0] (Finite 1),
             test_scored ''c'' [Finite 0, Finite 1] (Finite 0)] \<and>
     sorted_wrt (\<lambda>a b. fle (similarity b) (similarity a)) ranked \<and>
     findRelevantChunks test_query test_snapshot 2 = Inr (take 2 ranked) \<and>
     findRelevantChunks test_query test_snapshot 2 =
       Inr [test_scored ''b'' [Finite 1, Finite 0] (Finite 1),
            test_scored ''a'' [Finite 0, Finite 1] (Finite 0)]"
proof -
  have k: "(0::int) \<le> 2" by simp
  have ev: "findRelevantChunks test_query test_snapshot 2 =
       Inr [test_scored ''b'' [Finite 1, Finite 0] (Finite 1),
            test_scored ''a'' [Finite 0, Finite 1] (Finite 0)]"
    by (simp add: findRelevantChunks_sorted [OF test_map_scores] array_sort_def slice_take
        test_scored_def fsub_def small_numbers to_float64_0
        to_float64_of_int [of "- 1", simplified])
  from findRelevantChunks_sorted_topk [OF test_dimensions test_no_nan k] ev
  show ?thesis by (auto simp: test_map_scores)
qed

text \<open>
  C5, as the code has it. With every stored vector of the dimension of the query:
  \<open>k = 0\<close> gives the empty sequence, and \<open>k\<close> greater than the number of records gives
  all records: one result per stored record, the scored records in some order, and,
  when no similarity is NaN, in the stable ranking by descending similarity.
\<close>

theorem findRelevantChunks_k_edges:
  assumes "\<forall>item\<in>set snapshot. length (embedding item) = length q"
  shows "\<exists>scored.
           map_scores q snapshot = Inr scored \<and>
           map (score q) snapshot = map Inr scored \<and>
           findRelevantChunks q snapshot 0 = Inr [] \<and>
           (int (length snapshot) < k \<longrightarrow>
              (\<exists>all. findRelevantChunks q snapshot k = Inr all \<and>
                 mset all = mset scored \<and> length all = length snapshot \<and>
                 ((\<forall>item\<in>set snapshot. cosineSimilarity q (embedding item) \<noteq> Inr NaN) \<longrightarrow>
                    sorted_wrt (\<lambda>a b. fle (similarity b) (similarity a)) all \<and>
                    (\<forall>s. filter (\<lambda>r. similarity r = s) all =
                          filter (\<lambda>r. similarity r = s) scored))))"
proof -
  from map_scores_Inr [OF assms] obtain scored where sc: "map_scores q snapshot = Inr scored"
    by blast
  let ?sorted = "array_sort (\<lambda>a b. fsub (similarity b) (similarity a)) scored"
  have len: "length ?sorted = length snapshot"
    using map_scores_length [OF sc] by (simp add: length_array_sort)
  have zero: "findRelevantChunks q snapshot 0 = Inr []"
    by (simp add: findRelevantChunks_sorted [OF sc] slice_take)
  have big: "int (length snapshot) < k \<longrightarrow>
      (\<exists>all. findRelevantChunks q snapshot k = Inr all \<and>
         mset all = mset scored \<and> length all = length snapshot \<and>
         ((\<forall>item\<in>set snapshot. cosineSimilarity q (embedding item) \<noteq> Inr NaN) \<longrightarrow>
            sorted_wrt (\<lambda>a b. fle (similarity b) (similarity a)) all \<and>
            (\<forall>s. filter (\<lambda>r. similarity r = s) all = filter (\<lambda>r. similarity r = s) scored)))"
  proof
    assume "int (length snapshot) < k"
    then have "findRelevantChunks q snapshot k = Inr ?sorted"
      using len by (simp add: findRelevantChunks_sorted [OF sc] slice_take)
    moreover have "mset ?sorted = mset scored" by (rule mset_array_sort)
    moreover have "(\<forall>item\<in>set snapshot. cosineSimilarity q (embedding item) \<noteq> Inr NaN) \<longrightarrow>
        sorted_wrt (\<lambda>a b. fle (similarity b) (similarity a)) ?sorted \<and>
        (\<forall>s. filter (\<lambda>r. similarity r = s) ?sorted = filter (\<lambda>r. similarity r = s) scored)"
      using ranking [OF sc] by blast
    ultimately show "\<exists>all. findRelevantChunks q snapshot k = Inr all \<and>
         mset all = mset scored \<and> length all = length snapshot \<and>
         ((\<forall>item\<in>set snapshot. cosineSimilarity q (embedding item) \<noteq> Inr NaN) \<longrightarrow>
            sorted_wrt (\<lambda>a b. fle (similarity b) (similarity a)) all \<and>
            (\<forall>s. filter (\<lambda>r. similarity r = s) all = filter (\<lambda>r. similarity r = s) scored))"
      using len by (intro exI [of _ ?sorted]) simp
  qed
  from sc map_scores_pointwise [OF sc] zero big show ?thesis
    by (intro exI [of _ scored]) simp
qed

theorem findRelevantChunks_k_edges_witness:
  "findRelevantChunks test_query test_snapshot 0 = Inr [] \<and>
   (\<exists>all. findRelevantChunks test_query test_snapshot 4 = Inr all \<and> length all = 3 \<and>
      sorted_wrt (\<lambda>a b. fle (similarity b) (similarity a)) all) \<and>
   findRelevantChunks test_query test_snapshot 4 =
     Inr [test_scored ''b'' [Finite 1, Finite 0] (Finite 1),
          test_scored ''a'' [Finite 0, Finite 1] (Finite 0),
          test_scored ''c'' [Finite 0, Finite 1] (Finite 0)]"
proof -
  have len: "int (length test_snapshot) < 4" "length test_snapshot = 3"
    by (simp_all add: test_snapshot_def)
  have ev: "findRelevantChunks test_query test_snapshot 4 =
     Inr [test_scored ''b'' [Finite 1, Finite 0] (Finite 1),
          test_scored ''a'' [Finite 0, Finite 1] (Finite 0),
          test_scored ''c'' [Finite 0, Finite 1] (Finite 0)]"
    by (simp add: findRelevantChunks_sorted [OF test_map_scores] array_sort_def slice_take
        test_scored_def fsub_def small_numbers to_float64_0
        to_float64_of_int [of "- 1", simplified])
  from findRelevantChunks_k_edges [OF test_dimensions, of 4] len test_no_nan
  obtain all where "findRelevantChunks test_query test_snapshot 0 = Inr []"
      "findRelevantChunks test_query test_snapshot 4 = Inr all" "length all = 3"
      "sorted_wrt (\<lambda>a b. fle (similarity b) (similarity a)) all"
    by auto
  with ev show ?thesis by blast
qed

text \<open>
  C5, as stated, fails for a negative \<open>k\<close>: \<open>slice(0, -1)\<close> drops the last element only, so
  three stored records and \<open>k = -1\<close> give two results.
\<close>

theorem findRelevantChunks_negative_k_counterexample:
  "findRelevantChunks test_query test_snapshot (- 1) =
     Inr [test_scored ''b'' [Finite 1, Finite 0] (Finite 1),
          test_scored ''a'' [Finite 0, Finite 1] (Finite 0)] \<and>
   findRelevantChunks test_query test_snapshot (- 1) \<noteq> Inr []"
  by (simp add: findRelevantChunks_sorted [OF test_map_scores] array_sort_def slice_negative
      test_scored_def fsub_def small_numbers to_float64_0
      to_float64_of_int [of "- 1", simplified])

section \<open>The cache\<close>

text \<open>
  C2. With a snapshot in the cache: a call less than \<open>CACHE_DURATION\<close> (one hour in
  milliseconds) after the load returns the cached snapshot, leaves the state as it is and
  reads nothing; a call at or after that reads the object exactly once, and when the read
  gives a collection, that collection is returned and cached with the timestamp \<open>now\<close>.
\<close>

theorem loadFaqEmbeddings_ttl:
  assumes "embeddingsCache st = Some cached"
  shows "CACHE_DURATION = 3600000 \<and>
         (now - cacheTimestamp st < CACHE_DURATION \<longrightarrow>
            loadFaqEmbeddings w now st = (Inr cached, st, [])) \<and>
         (CACHE_DURATION \<le> now - cacheTimestamp st \<longrightarrow>
            snd (snd (loadFaqEmbeddings w now st)) = [GetEmbeddingsObject] \<and>
            (\<forall>fresh. s3_embeddings w = Inr fresh \<longrightarrow>
               loadFaqEmbeddings w now st =
                 (Inr fresh, \<lparr>embeddingsCache = Some fresh, cacheTimestamp = now\<rparr>,
                  [GetEmbeddingsObject])))"
  using assms
  by (auto simp: loadFaqEmbeddings_def fetchEmbeddings_def CACHE_DURATION_def split: sum.splits)

theorem loadFaqEmbeddings_ttl_witness:
  "loadFaqEmbeddings (test_world (Inr [])) 1001 \<lparr>embeddingsCache = Some test_snapshot, cacheTimestamp = 1000\<rparr>
     = (Inr test_snapshot, \<lparr>embeddingsCache = Some test_snapshot, cacheTimestamp = 1000\<rparr>, []) \<and>
   loadFaqEmbeddings (test_world (Inr [])) 3601000 \<lparr>embeddingsCache = Some test_snapshot, cacheTimestamp = 1000\<rparr>
     = (Inr [], \<lparr>embeddingsCache = Some [], cacheTimestamp = 3601000\<rparr>, [GetEmbeddingsObject])"
  using loadFaqEmbeddings_ttl [of "\<lparr>embeddingsCache = Some test_snapshot, cacheTimestamp = 1000\<rparr>"
      test_snapshot 1001 "test_world (Inr [])"]
    loadFaqEmbeddings_ttl [of "\<lparr>embeddingsCache = Some test_snapshot, cacheTimestamp = 1000\<rparr>"
      test_snapshot 3601000 "test_world (Inr [])"]
  by (simp add: test_world_def)

section \<open>The request handler\<close>

lemma trim_blank: "trim '' '' = []"
  by (simp add: trim_def is_whitespace_def)

lemma trim_question: "trim ''How do I reset my password?'' = ''How do I reset my password?''"
  by (simp add: trim_def is_whitespace_def)

text \<open>
  C7, as stated, fails: a request without question text is not always rejected as a
  missing question. The CORS preflight is answered 200 before the body is read. The body
  \<open>null\<close> makes the destructuring throw, and a \<open>question\<close> that is a number has no
  \<open>trim\<close>; both are answered by the \<open>catch\<close> with the 500 of an internal error. None of
  the three requests carries a question text.
\<close>

theorem handler_missing_question_counterexample:
  "question_text (body \<lparr>httpMethod = ''OPTIONS'', body = Parsed (JObject [])\<rparr>) = None \<and>
   fst (handler (test_world (Inr test_snapshot)) 0 initial_cache
          \<lparr>httpMethod = ''OPTIONS'', body = Parsed (JObject [])\<rparr>) =
     corsResponse 200 NoFields \<and>
   question_text (body (post_event JNull)) = None \<and>
   fst (handler (test_world (Inr test_snapshot)) 0 initial_cache (post_event JNull)) =
     corsResponse 500
       (ErrorMessage ''Internal server error''
          ''Cannot destructure property 'question' of 'body' as it is null.'') \<and>
   question_text (body (post_event (JObject [(''question'', JNumber (Finite 5))]))) = None \<and>
   fst (handler (test_world (Inr test_snapshot)) 0 initial_cache
          (post_event (JObject [(''question'', JNumber (Finite 5))]))) =
     corsResponse 500 (ErrorMessage ''Internal server error'' ''question.trim is not a function'')"
  by (simp add: handler_def post_event_def destructure_question_def falsy_def internal_error_def
      question_text_def)

text \<open>
  C7, as the code has it. For every request that carries no question text, or only white
  space: the handler makes no external call and leaves the cache as it is. When the
  request is not the CORS preflight and its body is a value other than \<open>null\<close> whose
  \<open>question\<close> is absent, falsy (\<open>null\<close>, \<open>false\<close>, \<open>0\<close>, NaN, the empty string) or a string of
  white space, the answer is 400 with \<open>Missing required parameter: question\<close>.
\<close>

theorem handler_rejects_missing_question:
  assumes "question_text (body ev) = None \<or> (\<exists>s. question_text (body ev) = Some s \<and> trim s = [])"
  shows "snd (handler w now st ev) = (st, []) \<and>
         (\<forall>b q. httpMethod ev \<noteq> ''OPTIONS'' \<and> body ev = Parsed b \<and>
                destructure_question b = Inr q \<and>
                (q = None \<or> (\<exists>v. q = Some v \<and> falsy v) \<or>
                 (\<exists>s. q = Some (JString s) \<and> trim s = [])) \<longrightarrow>
            fst (handler w now st ev) =
              corsResponse 400 (ErrorOnly ''Missing required parameter: question''))"
proof
  show "snd (handler w now st ev) = (st, [])"
  proof (cases "httpMethod ev = ''OPTIONS''")
    case True
    then show ?thesis by (simp add: handler_def)
  next
    case False
    show ?thesis
    proof (cases "body ev")
      case (Unparseable msg)
      with False show ?thesis by (simp add: handler_def)
    next
      case (Parsed b)
      show ?thesis
      proof (cases "destructure_question b")
        case (Inl e)
        with False Parsed show ?thesis by (simp add: handler_def)
      next
        case (Inr q)
        show ?thesis
        proof (cases q)
          case None
          with False Parsed Inr show ?thesis by (simp add: handler_def)
        next
          case (Some v)
          show ?thesis
          proof (cases "\<exists>s. v = JString s")
            case True
            then obtain s where s: "v = JString s" ..
            with Parsed Inr Some have "question_text (body ev) = Some s"
              by (auto simp: question_text_def destructure_question_def split: json.splits)
            with assms have "trim s = []" by simp
            with False Parsed Inr Some s show ?thesis by (simp add: handler_def)
          next
            case no_string: False
            with False Parsed Inr Some show ?thesis
              by (cases v) (simp_all add: handler_def)
          qed
        qed
      qed
    qed
  qed
  show "\<forall>b q. httpMethod ev \<noteq> ''OPTIONS'' \<and> body ev = Parsed b \<and>
          destructure_question b = Inr q \<and>
          (q = None \<or> (\<exists>v. q = Some v \<and> falsy v) \<or>
           (\<exists>s. q = Some (JString s) \<and> trim s = [])) \<longrightarrow>
        fst (handler w now st ev) =
          corsResponse 400 (ErrorOnly ''Missing required parameter: question'')"
    by (auto simp: handler_def)
qed

theorem handler_rejects_missing_question_witness:
  "handler (test_world (Inr test_snapshot)) 0 initial_cache (post_event (JObject [])) =
     (corsResponse 400 (ErrorOnly ''Missing required parameter: question''), initial_cache, []) \<and>
   handler (test_world (Inr test_snapshot)) 0 initial_cache (question_event '' '') =
     (corsResponse 400 (ErrorOnly ''Missing required parameter: question''), initial_cache, []) \<and>
   snd (handler (test_world (Inr test_snapshot)) 0 initial_cache (post_event JNull)) =
     (initial_cache, [])"
proof -
  let ?w = "test_world (Inr test_snapshot)"
  have q1: "question_text (body (post_event (JObject []))) = None"
    by (simp add: question_text_def post_event_def)
  have q2: "question_text (body (question_event '' '')) = Some '' ''"
    by (simp add: question_text_def question_event_def post_event_def)
  have q3: "question_text (body (post_event JNull)) = None"
    by (simp add: question_text_def post_event_def)
  have d1: "destructure_question (JObject []) = Inr None"
    by (simp add: destructure_question_def)
  have d2: "destructure_question (JObject [(''question'', JString '' '')]) = Inr (Some (JString '' ''))"
    by (simp add: destructure_question_def)
  from handler_rejects_missing_question [of "post_event (JObject [])" ?w 0 initial_cache] q1 d1
  have "handler ?w 0 initial_cache (post_event (JObject [])) =
      (corsResponse 400 (ErrorOnly ''Missing required parameter: question''), initial_cache, [])"
    by (simp add: post_event_def prod_eq_iff)
  moreover
  from handler_rejects_missing_question [of "question_event '' ''" ?w 0 initial_cache] q2 d2
    trim_blank
  have "handler ?w 0 initial_cache (question_event '' '') =
      (corsResponse 400 (ErrorOnly ''Missing required parameter: question''), initial_cache, [])"
    by (simp add: question_event_def post_event_def prod_eq_iff)
  moreover
  from handler_rejects_missing_question [of "post_event JNull" ?w 0 initial_cache] q3
  have "snd (handler ?w 0 initial_cache (post_event JNull)) = (initial_cache, [])"
    by simp
  ultimately show ?thesis by simp
qed

text \<open>
  Whatever the read of the embeddings object throws on a cold cache, the handler gives
  the same answer up to the message: the name of the error is not looked at.
\<close>

lemma handler_load_failure:
  assumes "httpMethod ev \<noteq> ''OPTIONS''"
    and "body ev = Parsed (JObject [(''question'', JString question)])"
    and "trim question \<noteq> []" and "embeddingsCache st = None" and "s3_embeddings w = Inl e"
  shows "handler w now st ev =
           (corsResponse 500 (ErrorMessage ''Internal server error'' (error_message e)), st,
            [GetEmbeddingsObject])"
proof -
  from assms(3) have "question \<noteq> []" by (auto simp: trim_def)
  with assms show ?thesis
    by (simp add: handler_def destructure_question_def falsy_def answer_question_def
        loadFaqEmbeddings_def fetchEmbeddings_def internal_error_def)
qed

text \<open>
  C1, at the failing input. A question arrives on a cold cache and the embeddings object
  does not exist: the error of the read is thrown again by \<open>loadFaqEmbeddings\<close> and the
  handler answers with the status and the \<open>error\<close> field it has for every other failure
  (here: access denied); only the \<open>message\<close> is the one of the storage client. The 503
  answer that asks to run the document processor is given for an empty collection only.
\<close>

theorem handler_missing_embeddings_object:
  "handler (test_world (Inl no_such_key)) 0 initial_cache
       (question_event ''How do I reset my password?'') =
     (corsResponse 500 (ErrorMessage ''Internal server error'' ''The specified key does not exist.''),
      initial_cache, [GetEmbeddingsObject]) \<and>
   handler (test_world (Inl access_denied)) 0 initial_cache
       (question_event ''How do I reset my password?'') =
     (corsResponse 500 (ErrorMessage ''Internal server error'' ''Access Denied''),
      initial_cache, [GetEmbeddingsObject]) \<and>
   fst (handler (test_world (Inr [])) 0 initial_cache
       (question_event ''How do I reset my password?'')) =
     corsResponse 503
       (ErrorOnly ''FAQ knowledge base not initialized. Please run document processor first.'')"
  by (simp add: handler_def question_event_def post_event_def destructure_question_def falsy_def
      trim_question answer_question_def
      loadFaqEmbeddings_def fetchEmbeddings_def initial_cache_def test_world_def
      internal_error_def no_such_key_def access_denied_def)

section \<open>Retrieval on the store\<close>

text \<open>Everything the call allocates is a scored record or an array, after the old store.\<close>

lemma map_scores_store_extends:
  "\<exists>new. snd (map_scores_store q as h) = h @ new \<and> (\<forall>ob\<in>set new. \<forall>r. ob \<noteq> Item r)"
proof (induction as arbitrary: h)
  case Nil
  show ?case by simp
next
  case (Cons a as)
  show ?case
  proof (cases "lookup h a")
    case None
    then show ?thesis by simp
  next
    case (Some ob)
    show ?thesis
    proof (cases ob)
      case (Item item)
      show ?thesis
      proof (cases "score q item")
        case (Inl e)
        with Some Item show ?thesis by simp
      next
        case (Inr s)
        from Cons.IH [of "h @ [Scored s]"] obtain new where
          new: "snd (map_scores_store q as (h @ [Scored s])) = (h @ [Scored s]) @ new"
            "\<forall>ob\<in>set new. \<forall>r. ob \<noteq> Item r"
          by blast
        have "snd (map_scores_store q (a # as) h) = snd (map_scores_store q as (h @ [Scored s]))"
          using Some Item Inr by (simp add: alloc_def split: prod.splits sum.splits)
        with new show ?thesis
          by (intro exI [of _ "Scored s # new"]) simp
      qed
    next
      case (Scored x)
      with Some show ?thesis by simp
    next
      case (Array x)
      with Some show ?thesis by simp
    qed
  qed
qed

lemma findRelevantChunks_store_extends:
  "\<exists>new. snd (findRelevantChunks_store q faq k h) = h @ new \<and> (\<forall>ob\<in>set new. \<forall>r. ob \<noteq> Item r)"
proof (cases "lookup h faq")
  case None
  then show ?thesis by (simp add: findRelevantChunks_store_def)
next
  case (Some ob)
  show ?thesis
  proof (cases ob)
    case (Array items)
    obtain res h1 where ms: "map_scores_store q items h = (res, h1)" by (cases "map_scores_store q items h")
    from map_scores_store_extends [of q items h] ms obtain new where
      new: "h1 = h @ new" "\<forall>ob\<in>set new. \<forall>r. ob \<noteq> Item r" by auto
    show ?thesis
    proof (cases res)
      case (Inl e)
      with Some Array ms new show ?thesis by (simp add: findRelevantChunks_store_def)
    next
      case (Inr rs)
      have "\<exists>x y. snd (findRelevantChunks_store q faq k h) = h1 @ [Array x, Array y]"
        using Some Array ms Inr
        by (simp add: findRelevantChunks_store_def alloc_def Let_def)
      then obtain x y where "snd (findRelevantChunks_store q faq k h) = h @ (new @ [Array x, Array y])"
        using new by auto
      moreover have "\<forall>ob\<in>set (new @ [Array x, Array y]). \<forall>r. ob \<noteq> Item r"
        using new by auto
      ultimately show ?thesis by blast
    qed
  next
    case (Item x)
    with Some show ?thesis by (simp add: findRelevantChunks_store_def)
  next
    case (Scored x)
    with Some show ?thesis by (simp add: findRelevantChunks_store_def)
  qed
qed

lemma lookup_item_append:
  assumes "\<forall>ob\<in>set new. \<forall>r. ob \<noteq> Item r"
  shows "item_at (h @ new) p = item_at h p"
proof (cases "p < length h")
  case True
  then show ?thesis by (simp add: item_at_def lookup_def nth_append)
next
  case False
  show ?thesis
  proof (cases "p < length (h @ new)")
    case True
    with False have "(h @ new) ! p \<in> set new"
      by (simp add: nth_append)
    with assms have "\<forall>r. (h @ new) ! p \<noteq> Item r" by blast
    with True False show ?thesis by (auto simp: item_at_def lookup_def split: obj.splits)
  next
    case False
    then show ?thesis by (simp add: item_at_def lookup_def)
  qed
qed

text \<open>
  The call on the store computes what \<open>findRelevantChunks\<close> computes: from a store whose
  array \<open>faq\<close> holds the records \<open>snap\<close>, it throws when \<open>findRelevantChunks\<close> throws,
  and otherwise returns the address of an array that holds the result of
  \<open>findRelevantChunks\<close>.
\<close>

lemma insert_by_map:
  "map g (insert_by (\<lambda>a b. c (g a) (g b)) x ys) = insert_by c (g x) (map g ys)"
  by (induction ys) auto

lemma array_sort_map:
  "map g (array_sort (\<lambda>a b. c (g a) (g b)) xs) = array_sort c (map g xs)"
  by (induction xs) (simp_all add: array_sort_def insert_by_map)

lemma set_insert_by: "set (insert_by c x ys) = insert x (set ys)"
  by (induction ys) auto

lemma set_array_sort: "set (array_sort c xs) = set xs"
  by (induction xs) (simp_all add: array_sort_def set_insert_by)

lemma insert_by_cong:
  "\<forall>y\<in>set ys. c x y = d x y \<Longrightarrow> insert_by c x ys = insert_by d x ys"
  by (induction ys) auto

lemma array_sort_cong:
  "\<forall>x\<in>set xs. \<forall>y\<in>set xs. c x y = d x y \<Longrightarrow> array_sort c xs = array_sort d xs"
proof (induction xs)
  case Nil
  show ?case by (simp add: array_sort_def)
next
  case (Cons x xs)
  then have "array_sort c xs = array_sort d xs" by simp
  moreover have "insert_by c x (array_sort d xs) = insert_by d x (array_sort d xs)"
    using Cons.prems by (intro insert_by_cong) (simp add: set_array_sort)
  ultimately show ?case by (simp add: array_sort_def)
qed

lemma slice_map: "slice (map g xs) i j = map g (slice xs i j)"
  by (simp add: slice_def Let_def take_map drop_map)

lemma set_slice: "set (slice xs i j) \<subseteq> set xs"
  by (auto simp: slice_def Let_def dest: in_set_takeD in_set_dropD)

lemma those_map_Some:
  "\<forall>a\<in>set xs. f a = Some (g a) \<Longrightarrow> those (map f xs) = Some (map g xs)"
  by (induction xs) simp_all

lemma those_Cons_Some:
  "those (x # xs) = Some ys \<Longrightarrow> \<exists>y ys'. x = Some y \<and> those xs = Some ys' \<and> ys = y # ys'"
  by (cases x) auto

lemma item_at_append: "item_at h p = Some r \<Longrightarrow> item_at (h @ ext) p = Some r"
  by (auto simp: item_at_def lookup_def nth_append split: if_splits obj.splits)

lemma those_item_at_append:
  "those (map (item_at h) items) = Some snap \<Longrightarrow> those (map (item_at (h @ ext)) items) = Some snap"
proof (induction items arbitrary: snap)
  case Nil
  then show ?case by simp
next
  case (Cons a items)
  from those_Cons_Some [of "item_at h a" "map (item_at h) items" snap] Cons.prems
  obtain r rs where "item_at h a = Some r" "those (map (item_at h) items) = Some rs" "snap = r # rs"
    by auto
  with Cons.IH [of rs] item_at_append [of h a r ext] show ?case by simp
qed

lemma map_scores_store_refines:
  assumes "those (map (item_at h) items) = Some snap"
  shows "case map_scores q snap of
           Inl e \<Rightarrow> fst (map_scores_store q items h) = Inl e
         | Inr scored \<Rightarrow>
             map_scores_store q items h =
               (Inr [length h..<length h + length scored], h @ map Scored scored)"
  using assms
proof (induction items arbitrary: snap h)
  case Nil
  then show ?case by simp
next
  case (Cons a items)
  from those_Cons_Some [of "item_at h a" "map (item_at h) items" snap] Cons.prems
  obtain r rs where r: "item_at h a = Some r" "those (map (item_at h) items) = Some rs"
      "snap = r # rs"
    by auto
  from r(1) have la: "lookup h a = Some (Item r)"
    by (auto simp: item_at_def split: option.splits obj.splits)
  show ?case
  proof (cases "score q r")
    case (Inl e)
    with la r(3) show ?thesis by simp
  next
    case (Inr s)
    have "those (map (item_at (h @ [Scored s])) items) = Some rs"
      using r(2) by (rule those_item_at_append)
    from Cons.IH [OF this] show ?thesis
    proof (cases "map_scores q rs")
      case (Inl e)
      with \<open>case map_scores q rs of Inl e \<Rightarrow> _ | Inr scored \<Rightarrow> _\<close>
      have "fst (map_scores_store q items (h @ [Scored s])) = Inl e" by simp
      then obtain h' where "map_scores_store q items (h @ [Scored s]) = (Inl e, h')"
        by (cases "map_scores_store q items (h @ [Scored s])") auto
      with la \<open>score q r = Inr s\<close> r(3) Inl show ?thesis
        by (simp add: alloc_def)
    next
      case (Inr scored)
      with \<open>case map_scores q rs of Inl e \<Rightarrow> _ | Inr scored \<Rightarrow> _\<close>
      have ih: "map_scores_store q items (h @ [Scored s]) =
          (Inr [Suc (length h)..<Suc (length h + length scored)],
           h @ Scored s # map Scored scored)" by simp
      have up: "[length h..<Suc (length h + length scored)] =
          length h # [Suc (length h)..<Suc (length h + length scored)]"
        by (simp add: upt_conv_Cons del: upt_Suc)
      from la \<open>score q r = Inr s\<close> r(3) Inr ih show ?thesis
        by (simp add: alloc_def up del: upt_Suc)
    qed
  qed
qed

lemma findRelevantChunks_store_refines:
  assumes "read_snapshot h faq = Some snap"
  shows "case findRelevantChunks_store q faq k h of
           (Inl e, h') \<Rightarrow> findRelevantChunks q snap k = Inl e
         | (Inr topChunks, h') \<Rightarrow>
             (\<exists>res. read_scored h' topChunks = Some res \<and> findRelevantChunks q snap k = Inr res)"
proof -
  from assms obtain items where items: "lookup h faq = Some (Array items)"
      "those (map (item_at h) items) = Some snap"
    by (auto simp: read_snapshot_def split: option.splits obj.splits)
  note ms = map_scores_store_refines [OF items(2), of q]
  show ?thesis
  proof (cases "map_scores q snap")
    case (Inl e)
    with ms have "fst (map_scores_store q items h) = Inl e" by simp
    then obtain h' where "map_scores_store q items h = (Inl e, h')"
      by (cases "map_scores_store q items h") auto
    with items(1) Inl show ?thesis
      by (simp add: findRelevantChunks_store_def findRelevantChunks_def)
  next
    case (Inr scored)
    let ?n = "length h"
    let ?rs = "[?n..<?n + length scored]"
    let ?h1 = "h @ map Scored scored"
    let ?h2 = "?h1 @ [Array ?rs]"
    let ?g = "\<lambda>a. scored ! (a - ?n)"
    let ?rs' = "array_sort (\<lambda>a b. fsub (similarity_at ?h2 b) (similarity_at ?h2 a)) ?rs"
    let ?h4 = "?h1 @ [Array ?rs', Array (slice ?rs' 0 k)]"
    from ms Inr have st: "map_scores_store q items h = (Inr ?rs, ?h1)" by simp
    have run: "findRelevantChunks_store q faq k h = (Inr (Suc (length ?h1)), ?h4)"
      using items(1) st
      by (simp add: findRelevantChunks_store_def alloc_def Let_def elements_def lookup_def
          nth_append list_update_append)
    have at2: "similarity_at ?h2 a = similarity (?g a)" if "a \<in> set ?rs" for a
    proof -
      from that have "a - ?n < length scored" "?n \<le> a" "a < Suc (?n + length scored)" by auto
      then show ?thesis by (simp add: similarity_at_def lookup_def nth_append)
    qed
    have at4: "scored_at ?h4 a = Some (?g a)" if "a \<in> set ?rs" for a
    proof -
      from that have "a - ?n < length scored" "?n \<le> a"
        "a < Suc (Suc (?n + length scored))" by auto
      then show ?thesis by (simp add: scored_at_def lookup_def nth_append)
    qed
    have "?rs' = array_sort (\<lambda>a b. fsub (similarity (?g b)) (similarity (?g a))) ?rs"
      by (intro array_sort_cong ballI) (simp only: at2)
    then have "map ?g ?rs' = array_sort (\<lambda>a b. fsub (similarity b) (similarity a)) (map ?g ?rs)"
      by (simp add: array_sort_map [of ?g "\<lambda>a b. fsub (similarity b) (similarity a)"])
    moreover have "map ?g ?rs = scored"
      by (rule nth_equalityI) simp_all
    ultimately have ranked: "map ?g ?rs' = array_sort (\<lambda>a b. fsub (similarity b) (similarity a)) scored"
      by simp
    have "\<forall>a\<in>set (slice ?rs' 0 k). scored_at ?h4 a = Some (?g a)"
      using set_slice [of ?rs' 0 k] at4 by (auto simp: set_array_sort simp del: set_upt)
    then have "those (map (scored_at ?h4) (slice ?rs' 0 k)) = Some (map ?g (slice ?rs' 0 k))"
      by (rule those_map_Some)
    also have "map ?g (slice ?rs' 0 k) = slice (map ?g ?rs') 0 k"
      by (simp only: slice_map)
    also have "\<dots> = slice (array_sort (\<lambda>a b. fsub (similarity b) (similarity a)) scored) 0 k"
      by (simp only: ranked)
    finally have th: "those (map (scored_at ?h4) (slice ?rs' 0 k)) =
        Some (slice (array_sort (\<lambda>a b. fsub (similarity b) (similarity a)) scored) 0 k)" .
    have "read_scored ?h4 (Suc (length ?h1)) = those (map (scored_at ?h4) (slice ?rs' 0 k))"
      by (simp add: read_scored_def lookup_def nth_append)
    with th have "read_scored ?h4 (Suc (length ?h1)) =
        Some (slice (array_sort (\<lambda>a b. fsub (similarity b) (similarity a)) scored) 0 k)"
      by (simp only:)
    with run Inr show ?thesis by (simp add: findRelevantChunks_def)
  qed
qed

text \<open>
  C10. For every store, array address, query and \<open>k\<close>: the store after the call is the
  store before it followed by newly allocated objects, so no existing object is written
  (the in-place \<open>sort\<close> rewrites the array that \<open>map\<close> allocated); the cached array
  holds the same records in the same order as before. This holds also when the call
  throws.
\<close>

theorem findRelevantChunks_store_read_only:
  "\<exists>new. snd (findRelevantChunks_store q faq k h) = h @ new \<and>
         read_snapshot (h @ new) faq = read_snapshot h faq"
proof (cases "faq < length h")
  case True
  from findRelevantChunks_store_extends [of q faq k h] obtain new where
    new: "snd (findRelevantChunks_store q faq k h) = h @ new" "\<forall>ob\<in>set new. \<forall>r. ob \<noteq> Item r"
    by blast
  have "lookup (h @ new) faq = lookup h faq"
    using True by (simp add: lookup_def nth_append)
  moreover have "item_at (h @ new) = item_at h"
    by (rule ext) (rule lookup_item_append [OF new(2)])
  ultimately have "read_snapshot (h @ new) faq = read_snapshot h faq"
    by (simp add: read_snapshot_def split: option.splits obj.splits)
  with new(1) show ?thesis by blast
next
  case False
  then have "snd (findRelevantChunks_store q faq k h) = h @ []"
    by (simp add: findRelevantChunks_store_def lookup_def)
  then show ?thesis by (intro exI [of _ "[]"]) simp
qed

section \<open>Chunking\<close>

text \<open>The loop runs once per sentence: it is the fold of its body over the sentences.\<close>

lemma chunk_loop_fold:
  "chunk_loop sentences chunkSize overlap i st =
     Some (fold (chunk_step chunkSize overlap) (drop i sentences) st)"
proof (induction "length sentences - i" arbitrary: i st)
  case 0
  then show ?case by (subst chunk_loop.simps) simp
next
  case (Suc n)
  then have lt: "i < length sentences" by simp
  from Suc.hyps(2) have "n = length sentences - (i + 1)" by simp
  from Suc.hyps(1) [OF this]
  have "chunk_loop sentences chunkSize overlap (i + 1)
          (chunk_step chunkSize overlap (sentences ! i) st) =
        Some (fold (chunk_step chunkSize overlap) (drop (i + 1) sentences)
          (chunk_step chunkSize overlap (sentences ! i) st))" .
  moreover have "drop i sentences = sentences ! i # drop (i + 1) sentences"
    using lt by (simp add: Cons_nth_drop_Suc)
  ultimately show ?case using lt by (subst chunk_loop.simps) simp
qed

text \<open>
  C9. For every text, every \<open>chunkSize\<close> and every \<open>overlap\<close> (also zero, negative, or
  at least \<open>chunkSize\<close>), \<open>chunkDocument\<close> returns a list of chunks: the sentence split
  consumes the text, and the loop advances one sentence per round whatever \<open>overlap\<close>
  is, since \<open>overlap\<close> only selects the tail of the closed chunk that seeds the next one.
\<close>

theorem chunkDocument_terminates:
  "\<exists>chunks. chunkDocument content chunkSize overlap = Some chunks"
  by (simp add: chunkDocument_def chunk_loop_fold split: prod.splits)

lemma chunkDocument_eq:
  "chunkDocument content chunkSize overlap =
     (case fold (chunk_step chunkSize overlap) (split_sentences [] content) ([], []) of
        (chunks, currentChunk) \<Rightarrow>
          Some (filter (\<lambda>chunk. length chunk > 50)
                  (if length (trim currentChunk) > 0 then chunks @ [trim currentChunk]
                   else chunks)))"
  by (simp add: chunkDocument_def chunk_loop_fold)

lemma test_split1:
  "split_sentences [] ''Reset your password by going to Settings then Security then Change Password.''
     = [''Reset your password by going to Settings then Security then Change Password.'']"
  by (simp add: is_whitespace_def)

lemma test_split2:
  "split_sentences [] ''Lock a card at once. Open Settings then Security and choose Lock Card!''
     = [''Lock a card at once.'', ''Open Settings then Security and choose Lock Card!'']"
  by (simp add: is_whitespace_def)

lemma test_chunk1:
  "chunkDocument ''Reset your password by going to Settings then Security then Change Password.'' CHUNK_SIZE CHUNK_OVERLAP
     = Some [''Reset your password by going to Settings then Security then Change Password.'']"
  by (simp add: chunkDocument_eq test_split1 chunk_step_def CHUNK_SIZE_def trim_def is_whitespace_def)

lemma test_chunk2:
  "chunkDocument ''Lock a card at once. Open Settings then Security and choose Lock Card!'' CHUNK_SIZE CHUNK_OVERLAP
     = Some [''Lock a card at once. Open Settings then Security and choose Lock Card!'']"
  by (simp add: chunkDocument_eq test_split2 chunk_step_def CHUNK_SIZE_def trim_def is_whitespace_def)


text \<open>
  A run with \<open>overlap \<ge> chunkSize\<close>: the first sentence closes a chunk of 20 characters
  (dropped by the length filter), the whole of it seeds the next chunk, and the run ends
  with the second sentence.
\<close>

lemma test_chunk_overlap:
  "chunkDocument ''Lock a card at once. Open Settings then Security and choose Lock Card!'' 30 200
     = Some [''Lock a card at once. Open Settings then Security and choose Lock Card!'']"
  by (simp add: chunkDocument_eq test_split2 chunk_step_def slice_from_def relative_index_def
      trim_def is_whitespace_def)

section \<open>Ingestion: record ids\<close>

text \<open>
  \<open>chunk_id\<close> is injective: the digits after the last underscore give the index, and
  what is before \<open>_chunk_\<close> gives the file name.
\<close>

lemma digit_val_digit_char: "d < 10 \<Longrightarrow> digit_val (digit_char d) = d"
proof -
  assume "d < 10"
  then have "d = 0 \<or> d = 1 \<or> d = 2 \<or> d = 3 \<or> d = 4 \<or> d = 5 \<or> d = 6 \<or> d = 7 \<or> d = 8 \<or> d = 9"
    by arith
  then show ?thesis
    by (elim disjE) (simp_all add: digit_val_def digit_char_def)
qed

lemma digit_char_not_underscore: "d < 10 \<Longrightarrow> digit_char d \<noteq> CHR ''_''"
proof -
  assume "d < 10"
  then have "d = 0 \<or> d = 1 \<or> d = 2 \<or> d = 3 \<or> d = 4 \<or> d = 5 \<or> d = 6 \<or> d = 7 \<or> d = 8 \<or> d = 9"
    by arith
  then show ?thesis
    by (elim disjE) (simp_all add: digit_char_def)
qed

lemma read_nat_show_nat: "read_nat (show_nat n) = n"
proof (induction n rule: show_nat.induct)
  case (1 n)
  show ?case
  proof (cases "n < 10")
    case True
    then show ?thesis
      by (subst show_nat.simps) (simp add: read_nat_def digit_val_digit_char)
  next
    case False
    with 1 have "read_nat (show_nat (n div 10)) = n div 10" by simp
    with False show ?thesis
      by (subst show_nat.simps) (simp add: read_nat_def digit_val_digit_char)
  qed
qed

lemma show_nat_inject: "show_nat n = show_nat m \<Longrightarrow> n = m"
  by (metis read_nat_show_nat)

lemma show_nat_no_underscore: "CHR ''_'' \<notin> set (show_nat n)"
proof (induction n rule: show_nat.induct)
  case (1 n)
  show ?case
  proof (cases "n < 10")
    case True
    then show ?thesis
      using digit_char_not_underscore [of n] by (subst show_nat.simps) auto
  next
    case False
    with 1 have "CHR ''_'' \<notin> set (show_nat (n div 10))" by simp
    with False show ?thesis
      using digit_char_not_underscore [of "n mod 10"] by (subst show_nat.simps) auto
  qed
qed

lemma digits_suffix:
  assumes "CHR ''_'' \<notin> set d"
  shows "takeWhile (\<lambda>c. c \<noteq> CHR ''_'') (rev (f @ ''_chunk_'' @ d)) = rev d"
proof -
  have "rev (f @ ''_chunk_'' @ d) = rev d @ CHR ''_'' # (''knuhc_'' @ rev f)" by simp
  moreover have "takeWhile (\<lambda>c. c \<noteq> CHR ''_'') (rev d @ CHR ''_'' # (''knuhc_'' @ rev f)) = rev d"
    using assms by (subst takeWhile_append2) auto
  ultimately show ?thesis by (simp only:)
qed

lemma chunk_id_inject:
  assumes "chunk_id f i = chunk_id g j"
  shows "f = g \<and> i = j"
proof -
  from assms have eq: "f @ ''_chunk_'' @ show_nat i = g @ ''_chunk_'' @ show_nat j"
    by (simp add: chunk_id_def)
  then have "takeWhile (\<lambda>c. c \<noteq> CHR ''_'') (rev (f @ ''_chunk_'' @ show_nat i)) =
             takeWhile (\<lambda>c. c \<noteq> CHR ''_'') (rev (g @ ''_chunk_'' @ show_nat j))"
    by (simp only:)
  then have "rev (show_nat i) = rev (show_nat j)"
    by (simp only: digits_suffix [OF show_nat_no_underscore])
  then have d: "show_nat i = show_nat j" by simp
  with eq have "f = g" by simp
  with d show ?thesis by (simp add: show_nat_inject)
qed


lemma embed_chunks_ids:
  "embed_chunks w filename cat chunks i = Inr records \<Longrightarrow>
   map id' records = map (chunk_id filename) [i..<length chunks]"
proof (induction "length chunks - i" arbitrary: i records)
  case 0
  then show ?case by (simp add: embed_chunks.simps [of _ _ _ _ i])
next
  case (Suc n)
  then have lt: "i < length chunks" by simp
  from Suc.prems lt obtain rest where
    rest: "embed_chunks w filename cat chunks (i + 1) = Inr rest"
      "id' (hd records) = chunk_id filename i" "records = hd records # rest"
    by (subst (asm) embed_chunks.simps) (auto split: sum.splits)
  from Suc.hyps(2) have "n = length chunks - (i + 1)" by simp
  from Suc.hyps(1) [OF this rest(1)]
  have "map id' rest = map (chunk_id filename) [i + 1..<length chunks]" .
  with rest(2,3) lt show ?case
    by (metis (no_types) Suc_eq_plus1 list.simps(9) upt_conv_Cons)
qed

lemma embed_chunks_skipping_ids:
  "\<exists>is. map id' (embed_chunks_skipping w filename chunks i) = map (chunk_id filename) is \<and>
        distinct is"
proof -
  have "\<exists>is. map id' (embed_chunks_skipping w filename chunks i) = map (chunk_id filename) is \<and>
        distinct is \<and> (\<forall>j\<in>set is. i \<le> j)"
  proof (induction "length chunks - i" arbitrary: i)
    case 0
    then show ?case by (simp add: embed_chunks_skipping.simps [of _ _ _ i])
  next
    case (Suc n)
    then have lt: "i < length chunks" by simp
    from Suc.hyps(2) have "n = length chunks - (i + 1)" by simp
    from Suc.hyps(1) [OF this] obtain js where
      js: "map id' (embed_chunks_skipping w filename chunks (i + 1)) = map (chunk_id filename) js"
        "distinct js" "\<forall>j\<in>set js. i + 1 \<le> j"
      by blast
    show ?case
    proof (cases "embed_chunk w (trim (chunks ! i))")
      case (Inl e)
      with lt js show ?thesis
        by (subst embed_chunks_skipping.simps) (intro exI [of _ js], auto)
    next
      case (Inr v)
      with lt js show ?thesis
        by (subst embed_chunks_skipping.simps) (intro exI [of _ "i # js"], auto)
    qed
  qed
  then show ?thesis by blast
qed

lemma distinct_chunk_ids: "distinct is \<Longrightarrow> distinct (map (chunk_id filename) is)"
  by (rule distinct_map [THEN iffD2]) (auto simp: inj_on_def dest: chunk_id_inject)

lemma process_files_ids:
  assumes "process_files w categories files = Some (Inr records)"
    and "distinct (map (\<lambda>obj. file_name (Key obj)) files)"
  shows "distinct (map id' records) \<and>
         (\<forall>r\<in>set records. \<exists>obj\<in>set files. \<exists>i. id' r = chunk_id (file_name (Key obj)) i)"
  using assms
proof (induction files arbitrary: records)
  case Nil
  then show ?case by simp
next
  case (Cons f files)
  show ?case
  proof (cases "case categories of Some cs \<Rightarrow> key_category (Key f) \<notin> set cs | None \<Rightarrow> False")
    case True
    with Cons.prems have "process_files w categories files = Some (Inr records)" by simp
    with Cons.IH [of records] Cons.prems(2) show ?thesis by auto
  next
    case False
    with Cons.prems(1) obtain chunks recs rest where
      parts: "embed_chunks w (file_name (Key f)) (key_category (Key f)) chunks 0 = Inr recs"
        "process_files w categories files = Some (Inr rest)" "records = recs @ rest"
      by (auto split: sum.splits option.splits)
    let ?f = "file_name (Key f)"
    from embed_chunks_ids [OF parts(1)]
    have ids: "map id' recs = map (chunk_id ?f) [0..<length chunks]" .
    then have d1: "distinct (map id' recs)" by (simp add: distinct_chunk_ids)
    from Cons.IH [OF parts(2)] Cons.prems(2)
    have d2: "distinct (map id' rest)"
      and from_files: "\<forall>r\<in>set rest. \<exists>obj\<in>set files. \<exists>i. id' r = chunk_id (file_name (Key obj)) i"
      by auto
    have own: "\<forall>r\<in>set recs. \<exists>i. id' r = chunk_id ?f i"
    proof
      fix r assume "r \<in> set recs"
      then have "id' r \<in> set (map id' recs)" by simp
      with ids show "\<exists>i. id' r = chunk_id ?f i" by auto
    qed
    have disj: "set (map id' recs) \<inter> set (map id' rest) = {}"
    proof (rule ccontr)
      assume "set (map id' recs) \<inter> set (map id' rest) \<noteq> {}"
      then obtain r r' where rr: "r \<in> set recs" "r' \<in> set rest" "id' r = id' r'" by auto
      from own rr(1) obtain i where i: "id' r = chunk_id ?f i" by blast
      from from_files rr(2) obtain obj j where
        j: "obj \<in> set files" "id' r' = chunk_id (file_name (Key obj)) j" by blast
      from i j rr(3) have "?f = file_name (Key obj)" by (auto dest: chunk_id_inject)
      with j(1) Cons.prems(2) show False by auto
    qed
    from d1 d2 disj parts(3) have "distinct (map id' records)" by simp
    moreover have "\<forall>r\<in>set records. \<exists>obj\<in>set (f # files). \<exists>i.
        id' r = chunk_id (file_name (Key obj)) i"
      using own from_files parts(3) by auto
    ultimately show ?thesis by blast
  qed
qed

lemma handleProcessEmbeddings_ids_distinct:
  assumes "listing w = Inr contents"
    and "distinct (map (\<lambda>obj. file_name (Key obj)) (filter (\<lambda>obj. endsWith (Key obj) ''.md'') contents))"
    and "handleProcessEmbeddings w categories = Some (Inr records)"
  shows "distinct (map id' records)"
proof -
  from assms(1,3) have "process_files w categories (filter (\<lambda>obj. endsWith (Key obj) ''.md'') contents)
      = Some (Inr records)"
    by (auto simp: handleProcessEmbeddings_def split: option.splits sum.splits)
  from process_files_ids [OF this assms(2)] show ?thesis by simp
qed

lemma show_nat_0: "show_nat 0 = ''0''"
  by (simp add: show_nat.simps digit_char_def)

lemma test_keys:
  "file_name ''content/account/faq.md'' = ''faq.md''"
  "file_name ''content/cards/faq.md'' = ''faq.md''"
  "key_category ''content/account/faq.md'' = ''account''"
  "key_category ''content/cards/faq.md'' = ''cards''"
  "endsWith ''content/account/faq.md'' ''.md''"
  "endsWith ''content/cards/faq.md'' ''.md''"
  by (simp_all add: file_name_def key_category_def endsWith_def)

lemma embed_chunks_single:
  "embed_chunk w (trim c) = Inr v \<Longrightarrow>
   embed_chunks w filename cat [c] 0 =
     Inr [\<lparr>id' = chunk_id filename 0, text' = c, embedding = v,
           metadata = \<lparr>source = filename, category = cat, chunkIndex = 0, totalChunks = 1,
                        lastUpdated = Some (timestamp w)\<rparr>\<rparr>]"
  by (simp add: embed_chunks.simps [of _ _ _ _ 0] embed_chunks.simps [of _ _ _ _ "Suc 0"])

lemma test_keys_documents:
  "file_name ''faq-documents/account/faq.md'' = ''faq.md''"
  "file_name ''faq-documents/cards/faq.md'' = ''faq.md''"
  "endsWith ''faq-documents/account/faq.md'' ''.md''"
  "endsWith ''faq-documents/cards/faq.md'' ''.md''"
  by (simp_all add: file_name_def endsWith_def)

lemma embed_chunks_skipping_single:
  "embed_chunk w (trim c) = Inr v \<Longrightarrow>
   map id' (embed_chunks_skipping w filename [c] 0) = [chunk_id filename 0]"
  by (simp add: embed_chunks_skipping.simps [of _ _ _ 0]
      embed_chunks_skipping.simps [of _ _ _ "Suc 0"])

lemma process_documents_ids:
  assumes "process_documents w documents = Some (Inr records)"
    and "distinct (map (\<lambda>obj. file_name (Key obj)) documents)"
  shows "distinct (map id' records) \<and>
         (\<forall>r\<in>set records. \<exists>obj\<in>set documents. \<exists>i. id' r = chunk_id (file_name (Key obj)) i)"
  using assms
proof (induction documents arbitrary: records)
  case Nil
  then show ?case by simp
next
  case (Cons d documents)
  let ?f = "file_name (Key d)"
  from Cons.prems(1) obtain chunks rest where
    parts: "process_documents w documents = Some (Inr rest)"
      "records = embed_chunks_skipping w ?f chunks 0 @ rest"
    by (auto split: sum.splits option.splits)
  let ?recs = "embed_chunks_skipping w ?f chunks 0"
  from embed_chunks_skipping_ids [of w ?f chunks 0] obtain js where
    ids: "map id' ?recs = map (chunk_id ?f) js" "distinct js" by blast
  then have d1: "distinct (map id' ?recs)" by (simp add: distinct_chunk_ids)
  from Cons.IH [OF parts(1)] Cons.prems(2)
  have d2: "distinct (map id' rest)"
    and from_docs: "\<forall>r\<in>set rest. \<exists>obj\<in>set documents. \<exists>i. id' r = chunk_id (file_name (Key obj)) i"
    by auto
  have own: "\<forall>r\<in>set ?recs. \<exists>i. id' r = chunk_id ?f i"
  proof
    fix r assume "r \<in> set ?recs"
    then have "id' r \<in> set (map id' ?recs)" by simp
    with ids(1) show "\<exists>i. id' r = chunk_id ?f i" by auto
  qed
  have disj: "set (map id' ?recs) \<inter> set (map id' rest) = {}"
  proof (rule ccontr)
    assume "set (map id' ?recs) \<inter> set (map id' rest) \<noteq> {}"
    then obtain r r' where rr: "r \<in> set ?recs" "r' \<in> set rest" "id' r = id' r'" by auto
    from own rr(1) obtain i where i: "id' r = chunk_id ?f i" by blast
    from from_docs rr(2) obtain obj j where
      j: "obj \<in> set documents" "id' r' = chunk_id (file_name (Key obj)) j" by blast
    from i j rr(3) have "?f = file_name (Key obj)" by (auto dest: chunk_id_inject)
    with j(1) Cons.prems(2) show False by auto
  qed
  from d1 d2 disj parts(2) have "distinct (map id' records)" by simp
  moreover have "\<forall>r\<in>set records. \<exists>obj\<in>set (d # documents). \<exists>i.
      id' r = chunk_id (file_name (Key obj)) i"
    using own from_docs parts(2) by auto
  ultimately show ?case by blast
qed

text \<open>
  Within one run the ids are pairwise distinct whenever the processed objects have
  pairwise distinct file names; the index distinguishes the chunks of one file.
\<close>

lemma processFaqDocuments_ids_distinct:
  assumes "listing w = Inr contents"
    and "distinct (map (\<lambda>obj. file_name (Key obj)) (filter (\<lambda>obj. endsWith (Key obj) ''.md'') contents))"
    and "processFaqDocuments w = Some (Inr records)"
  shows "distinct (map id' records)"
proof -
  from assms(1,3) have "process_documents w (filter (\<lambda>obj. endsWith (Key obj) ''.md'') contents)
      = Some (Inr records)"
    by (auto simp: processFaqDocuments_def split: option.splits sum.splits)
  from process_documents_ids [OF this assms(2)] show ?thesis by simp
qed

text \<open>
  C8, at the failing input. The bucket holds \<open>account/faq.md\<close> and \<open>cards/faq.md\<close> under
  the prefix of the run; each gives one chunk. The id is built from the file name without
  its directory, so both runs (the content manager and the document processor) write a
  collection in which the id \<open>faq.md_chunk_0\<close> occurs twice.
\<close>

theorem ingestion_duplicate_ids:
  "(\<exists>records. handleProcessEmbeddings (test_bucket ''content/'') None = Some (Inr records) \<and>
      map id' records = [''faq.md_chunk_0'', ''faq.md_chunk_0''] \<and>
      \<not> distinct (map id' records)) \<and>
   (\<exists>records. processFaqDocuments (test_bucket ''faq-documents/'') = Some (Inr records) \<and>
      map id' records = [''faq.md_chunk_0'', ''faq.md_chunk_0''] \<and>
      \<not> distinct (map id' records))"
proof -
  have "\<exists>records. handleProcessEmbeddings (test_bucket ''content/'') None = Some (Inr records) \<and>
      map id' records = [''faq.md_chunk_0'', ''faq.md_chunk_0''] \<and>
      \<not> distinct (map id' records)"
    by (simp add: handleProcessEmbeddings_def test_bucket_def test_keys test_chunk1 test_chunk2
        embed_chunks_single chunk_id_def show_nat_0)
  moreover have "\<exists>records. processFaqDocuments (test_bucket ''faq-documents/'') = Some (Inr records) \<and>
      map id' records = [''faq.md_chunk_0'', ''faq.md_chunk_0''] \<and>
      \<not> distinct (map id' records)"
    by (simp add: processFaqDocuments_def test_bucket_def test_keys_documents test_chunk1 test_chunk2
        embed_chunks_skipping_single chunk_id_def show_nat_0)
  ultimately show ?thesis by blast
qed

end
